theory Spec2Isabelle
  imports Complex_Main "HOL-Library.Word"
begin

section \<open>What the stressors see of the outside world\<close>

text \<open>
  Both stressors talk to the kernel and to the stress-ng framework. Every answer of the
  outside world is a field of an environment record: the value returned by the k-th call
  of a system call, the k-th clock reading, the k-th random draw, the k-th answer of
  \<^verbatim>\<open>keep_stressing\<close>. The program state carries one cursor per kind of call, and
  a trace of the calls and reports it has made, in order. A report keeps the text of its
  message without the arguments of the format (the name of the worker, errno); the calls
  of \<^verbatim>\<open>stress_set_proc_state\<close> are left out.
\<close>

datatype exit_status = EXIT_SUCCESS | EXIT_NO_RESOURCE | EXIT_NOT_IMPLEMENTED

datatype flow = Break | Continue

text \<open>The address a \<^verbatim>\<open>remap_file_pages\<close> call is made on: page i of \<^verbatim>\<open>data\<close>,
  the probe address \<^verbatim>\<open>unmapped\<close>, or \<^verbatim>\<open>mapped + page_size\<close>.\<close>

datatype target = DataPage nat | UnmappedProbe | PastMappedProbe

datatype region = DataRegion | MappedRegion | UnmappedRegion

text \<open>The selector byte that the kernel reads at every system call once user dispatch
  is on: \<^verbatim>\<open>SYSCALL_DISPATCH_FILTER_ALLOW\<close> (0) or \<^verbatim>\<open>SYSCALL_DISPATCH_FILTER_BLOCK\<close> (1).\<close>

datatype selector_t = SYSCALL_DISPATCH_FILTER_ALLOW | SYSCALL_DISPATCH_FILTER_BLOCK

text \<open>\<open>Prctl on offset len\<close> is \<^verbatim>\<open>prctl(PR_SET_SYSCALL_USER_DISPATCH, ...)\<close> with
  \<^verbatim>\<open>PR_SYS_DISPATCH_ON\<close> or \<^verbatim>\<open>PR_SYS_DISPATCH_OFF\<close>; \<open>Syscall nr sel\<close> is
  \<^verbatim>\<open>syscall(nr)\<close> through the C library, issued while the selector byte was sel, and
  \<open>RawSyscall nr sel\<close> the same through \<^verbatim>\<open>x86_64_syscall0\<close>.\<close>

datatype event =
    Mlock nat
  | Munlock nat
  | RemapFilePages target int nat int
  | Munmap region
  | Sigaction
  | Prctl bool "64 word" "64 word"
  | Syscall int selector_t
  | RawSyscall int selector_t
  | PrFail string
  | PrInf string
  | PrInfSkip string
  | IncCounter
  | MetricsSet nat string "real option"

record log =
  trace :: "event list"

definition emit :: "event \<Rightarrow> 'a log_scheme \<Rightarrow> 'a log_scheme" where
  "emit ev s = s\<lparr>trace := trace s @ [ev]\<rparr>"

definition pr_fail :: "string \<Rightarrow> 'a log_scheme \<Rightarrow> 'a log_scheme" where
  "pr_fail msg s = emit (PrFail msg) s"

definition pr_inf :: "string \<Rightarrow> 'a log_scheme \<Rightarrow> 'a log_scheme" where
  "pr_inf msg s = emit (PrInf msg) s"

definition pr_inf_skip :: "string \<Rightarrow> 'a log_scheme \<Rightarrow> 'a log_scheme" where
  "pr_inf_skip msg s = emit (PrInfSkip msg) s"

definition inc_counter :: "'a log_scheme \<Rightarrow> 'a log_scheme" where
  "inc_counter s = emit IncCounter s"

section \<open>The page-remap stressor (stress-remap.c)\<close>

definition N_PAGES :: nat where
  "N_PAGES = 512"

type_synonym stress_mapdata_t = "16 word"

text \<open>
  \<^verbatim>\<open>sys_remap_file_pages e k i pgoff\<close> is the kernel's answer to the k-th
  \<^verbatim>\<open>remap_file_pages\<close> call on the data region, made on virtual page i with page
  offset pgoff: the value returned, and the page of the shared object that backs virtual
  page i from then on (\<open>None\<close>: the mapping is left as it was). The booleans say how the
  set-up calls went. \<^verbatim>\<open>have_mlock\<close> is the build option \<^verbatim>\<open>HAVE_MLOCK\<close>.
\<close>

record env =
  have_mlock :: bool
  sys_mmap_data :: bool
  unmapped_addr :: bool
  sys_mmap_probe :: bool
  sys_munmap_probe :: bool
  sys_mlock :: "nat \<Rightarrow> int"
  sys_remap_file_pages :: "nat \<Rightarrow> nat \<Rightarrow> nat \<Rightarrow> int \<times> nat option"
  time_now :: "nat \<Rightarrow> real"
  mwc32modn :: "nat \<Rightarrow> nat"
  keep_stressing :: "nat \<Rightarrow> bool"

text \<open>
  The memory of the data region is addressed by page: the program only ever reads and
  writes \<^verbatim>\<open>data[i * stride]\<close>, the first element slot of virtual page i.
  \<open>backing s i\<close> is the page of the shared object behind virtual page i, \<open>slot0 s p\<close>
  the value in the first slot of object page p. \<open>duration\<close> and \<open>count\<close> are the
  locals of \<^verbatim>\<open>stress_remap\<close> that \<^verbatim>\<open>remap_order\<close> updates through pointers;
  C's double is idealised as a real number.
\<close>

record state = log +
  backing :: "nat \<Rightarrow> nat"
  slot0 :: "nat \<Rightarrow> stress_mapdata_t"
  duration :: real
  count :: real
  n_mlock :: nat
  n_remap :: nat
  n_time :: nat
  n_rand :: nat
  n_keep :: nat

definition tag_at :: "state \<Rightarrow> nat \<Rightarrow> stress_mapdata_t" where
  "tag_at s i = slot0 s (backing s i)"

definition store_tag :: "nat \<Rightarrow> stress_mapdata_t \<Rightarrow> state \<Rightarrow> state" where
  "store_tag i v s = s\<lparr>slot0 := (slot0 s)(backing s i := v)\<rparr>"

definition mlock :: "env \<Rightarrow> nat \<Rightarrow> state \<Rightarrow> int \<times> state" where
  "mlock e i s = (sys_mlock e (n_mlock s), emit (Mlock i) (s\<lparr>n_mlock := Suc (n_mlock s)\<rparr>))"

definition munlock :: "nat \<Rightarrow> state \<Rightarrow> state" where
  "munlock i s = emit (Munlock i) s"

definition stress_time_now :: "env \<Rightarrow> state \<Rightarrow> real \<times> state" where
  "stress_time_now e s = (time_now e (n_time s), s\<lparr>n_time := Suc (n_time s)\<rparr>)"

definition remap_file_pages :: "env \<Rightarrow> nat \<Rightarrow> nat \<Rightarrow> state \<Rightarrow> int \<times> state" where
  "remap_file_pages e i pgoff s =
     (case sys_remap_file_pages e (n_remap s) i pgoff of
        (ret, installed) \<Rightarrow>
          (ret,
           emit (RemapFilePages (DataPage i) 0 pgoff 0)
             (s\<lparr>backing := (case installed of
                                None \<Rightarrow> backing s
                              | Some p \<Rightarrow> (backing s)(i := p)),
                n_remap := Suc (n_remap s)\<rparr>)))"

subsection \<open>check_order\<close>

function check_order_loop :: "nat list \<Rightarrow> state \<Rightarrow> nat \<Rightarrow> bool" where
  "check_order_loop order s i =
     (if i < N_PAGES then
        (if unat (tag_at s i) \<noteq> order ! i then True
         else check_order_loop order s (Suc i))
      else False)"
  by pat_completeness auto
termination
  by (relation "measure (\<lambda>(order, s, i). N_PAGES - i)") auto

definition check_order :: "nat list \<Rightarrow> string \<Rightarrow> state \<Rightarrow> state" where
  "check_order order name s =
     (if check_order_loop order s 0
      then pr_fail (''remap '' @ name @ '' order pages failed'') s
      else s)"

subsection \<open>remap_order\<close>

text \<open>The body of the loop of \<^verbatim>\<open>remap_order\<close> for page i, up to and including the
  retry; the value returned is \<^verbatim>\<open>ret\<close> as the test \<^verbatim>\<open>ret < 0\<close> finds it.\<close>

definition remap_page :: "env \<Rightarrow> nat list \<Rightarrow> nat \<Rightarrow> state \<Rightarrow> int \<times> state" where
  "remap_page e order i s0 =
     (let (lock_ret, s1) = (if have_mlock e then mlock e i s0 else (0, s0));
          (t, s2) = stress_time_now e s1;
          (ret, s3) = remap_file_pages e i (order ! i) s2;
          s4 = (if ret = 0 then
                  (let (t', s) = stress_time_now e s3
                   in s\<lparr>duration := duration s + (t' - t), count := count s + 1\<rparr>)
                else s3);
          s5 = (if have_mlock e \<and> lock_ret = 0 then munlock i s4 else s4)
      in if have_mlock e \<and> ret \<noteq> 0 then remap_file_pages e i (order ! i) s5
         else (ret, s5))"

function remap_order_loop :: "env \<Rightarrow> nat list \<Rightarrow> nat \<Rightarrow> state \<Rightarrow> int \<times> state" where
  "remap_order_loop e order i s =
     (if i < N_PAGES then
        (case remap_page e order i s of
           (ret, s') \<Rightarrow>
             if ret < 0 then (- 1, pr_fail ''remap_file_pages failed'' s')
             else remap_order_loop e order (Suc i) s')
      else (0, s))"
  by pat_completeness auto
termination
  by (relation "measure (\<lambda>(e, order, i, s). N_PAGES - i)") auto

definition remap_order :: "env \<Rightarrow> nat list \<Rightarrow> state \<Rightarrow> int \<times> state" where
  "remap_order e order s = remap_order_loop e order 0 s"

subsection \<open>The orders of stress_remap\<close>

text \<open>The four loops that fill \<^verbatim>\<open>order\<close>. \<open>rnd i\<close> is the value
  \<^verbatim>\<open>stress_mwc32modn(N_PAGES)\<close> returns in round i of the shuffle.\<close>

function reverse_loop :: "nat \<Rightarrow> nat list \<Rightarrow> nat list" where
  "reverse_loop i order =
     (if i < N_PAGES then reverse_loop (Suc i) (order[i := N_PAGES - 1 - i]) else order)"
  by pat_completeness auto
termination
  by (relation "measure (\<lambda>(i, order). N_PAGES - i)") auto

function forward_loop :: "nat \<Rightarrow> nat list \<Rightarrow> nat list" where
  "forward_loop i order =
     (if i < N_PAGES then forward_loop (Suc i) (order[i := i]) else order)"
  by pat_completeness auto
termination
  by (relation "measure (\<lambda>(i, order). N_PAGES - i)") auto

function all_to_1_loop :: "nat \<Rightarrow> nat list \<Rightarrow> nat list" where
  "all_to_1_loop i order =
     (if i < N_PAGES then all_to_1_loop (Suc i) (order[i := 0]) else order)"
  by pat_completeness auto
termination
  by (relation "measure (\<lambda>(i, order). N_PAGES - i)") auto

function shuffle_loop :: "(nat \<Rightarrow> nat) \<Rightarrow> nat \<Rightarrow> nat list \<Rightarrow> nat list" where
  "shuffle_loop rnd i order =
     (if i < N_PAGES then
        (let j = rnd i;
             tmp = order ! i;
             order = order[i := order ! j];
             order = order[j := tmp]
         in shuffle_loop rnd (Suc i) order)
      else order)"
  by pat_completeness auto
termination
  by (relation "measure (\<lambda>(rnd, i, order). N_PAGES - i)") auto

definition random_order :: "env \<Rightarrow> nat list \<Rightarrow> state \<Rightarrow> nat list \<times> state" where
  "random_order e order s =
     (shuffle_loop (\<lambda>i. mwc32modn e (n_rand s + i)) 0 (forward_loop 0 order),
      s\<lparr>n_rand := n_rand s + N_PAGES\<rparr>)"

subsection \<open>stress_remap\<close>

definition mapped :: "env \<Rightarrow> bool" where
  "mapped e \<longleftrightarrow> sys_mmap_probe e \<and> sys_munmap_probe e"

definition illegal_remaps :: "env \<Rightarrow> nat list \<Rightarrow> state \<Rightarrow> state" where
  "illegal_remaps e order s0 =
     (let s1 = (if unmapped_addr e then
                  emit (RemapFilePages UnmappedProbe (- 1) (order ! 0) 0)
                    (emit (RemapFilePages UnmappedProbe 0 0 (- 1))
                      (emit (RemapFilePages UnmappedProbe 0 0 0) s0))
                else s0)
      in if mapped e then
           emit (RemapFilePages PastMappedProbe (- 1) (order ! 0) 0)
             (emit (RemapFilePages PastMappedProbe 0 0 (- 1))
               (emit (RemapFilePages PastMappedProbe 0 0 0) s1))
         else s1)"

text \<open>One remap pass of the loop body:
  \<^verbatim>\<open>if (remap_order(...) < 0) break; check_order(...);\<close>\<close>

definition pass :: "env \<Rightarrow> nat list \<Rightarrow> string \<Rightarrow> state \<Rightarrow> flow \<times> state" where
  "pass e order name s =
     (case remap_order e order s of
        (ret, s') \<Rightarrow>
          if ret < 0 then (Break, s') else (Continue, check_order order name s'))"

text \<open>The body of the do-while loop. \<^verbatim>\<open>order\<close> is an uninitialised array that the
  first loop fills entirely; the model starts it at zeros.\<close>

definition iteration :: "env \<Rightarrow> state \<Rightarrow> flow \<times> state" where
  "iteration e s0 =
     (let order = reverse_loop 0 (replicate N_PAGES 0) in
      case pass e order ''reverse'' s0 of
        (Break, s1) \<Rightarrow> (Break, s1)
      | (Continue, s1) \<Rightarrow>
          (case random_order e order s1 of
             (order, s1) \<Rightarrow>
               (case pass e order ''random'' s1 of
                  (Break, s2) \<Rightarrow> (Break, s2)
                | (Continue, s2) \<Rightarrow>
                    (let order = all_to_1_loop 0 order in
                     case pass e order ''all-to-1'' s2 of
                       (Break, s3) \<Rightarrow> (Break, s3)
                     | (Continue, s3) \<Rightarrow>
                         (let order = forward_loop 0 order in
                          case pass e order ''forward'' s3 of
                            (Break, s4) \<Rightarrow> (Break, s4)
                          | (Continue, s4) \<Rightarrow>
                              (Continue, inc_counter (illegal_remaps e order s4)))))))"

text \<open>The do-while loop, with fuel: \<open>None\<close> when the fuel runs out before the loop is
  left (\<^verbatim>\<open>keep_stressing\<close> may answer true for ever).\<close>

fun stress_loop :: "nat \<Rightarrow> env \<Rightarrow> state \<Rightarrow> state option" where
  "stress_loop 0 e s = None"
| "stress_loop (Suc fuel) e s =
     (case iteration e s of
        (Break, s') \<Rightarrow> Some s'
      | (Continue, s') \<Rightarrow>
          if keep_stressing e (n_keep s')
          then stress_loop fuel e (s'\<lparr>n_keep := Suc (n_keep s')\<rparr>)
          else Some (s'\<lparr>n_keep := Suc (n_keep s')\<rparr>))"

function init_loop :: "nat \<Rightarrow> state \<Rightarrow> state" where
  "init_loop i s =
     (if i < N_PAGES then init_loop (Suc i) (store_tag i (word_of_nat i) s) else s)"
  by pat_completeness auto
termination
  by (relation "measure (\<lambda>(i, s). N_PAGES - i)") auto

text \<open>The state after a successful \<^verbatim>\<open>mmap\<close> of the data region: virtual page i is
  backed by object page i, and the pages are zero filled.\<close>

definition fresh :: state where
  "fresh = \<lparr>trace = [], backing = (\<lambda>i. i), slot0 = (\<lambda>p. 0), duration = 0, count = 0,
            n_mlock = 0, n_remap = 0, n_time = 0, n_rand = 0, n_keep = 0\<rparr>"

text \<open>The division \<^verbatim>\<open>duration / count\<close> of doubles: \<open>None\<close> stands for the
  result of a division by zero, which is not a number.\<close>

definition ddiv :: "real \<Rightarrow> real \<Rightarrow> real option" where
  "ddiv a b = (if b = 0 then None else Some (a / b))"

definition dmul :: "real option \<Rightarrow> real \<Rightarrow> real option" where
  "dmul a b = (case a of None \<Rightarrow> None | Some x \<Rightarrow> Some (x * b))"

definition teardown :: "env \<Rightarrow> state \<Rightarrow> state" where
  "teardown e s0 =
     (let rate = (if count s0 > 0 then ddiv (duration s0) (count s0) else Some 0);
          s1 = emit (MetricsSet 0 ''nanosecs per page remap'' (dmul rate 1000000000)) s0;
          s2 = emit (Munmap DataRegion) s1;
          s3 = (if mapped e then emit (Munmap MappedRegion) s2 else s2)
      in if unmapped_addr e then emit (Munmap UnmappedRegion) s3 else s3)"

definition stress_remap :: "nat \<Rightarrow> env \<Rightarrow> (exit_status \<times> state) option" where
  "stress_remap fuel e =
     (if \<not> sys_mmap_data e
      then Some (EXIT_NO_RESOURCE, pr_inf_skip ''mmap failed to allocate'' fresh)
      else
        (case stress_loop fuel e (init_loop 0 fresh) of
           None \<Rightarrow> None
         | Some s \<Rightarrow> Some (EXIT_SUCCESS, teardown e s)))"

section \<open>The user-dispatch stressor (stress-usersyscall.c)\<close>

definition ENOSYS :: int where
  "ENOSYS = 38"

definition SYS_USER_DISPATCH :: int where
  "SYS_USER_DISPATCH = 2"

record siginfo_t =
  si_code :: int
  si_errno :: int

text \<open>Whether the kernel raised SIGSYS during a system call, and the \<^verbatim>\<open>info\<close>
  pointer the handler was given (\<open>None\<close>: a null pointer).\<close>

datatype delivery = NoSignal | Sigsys "siginfo_t option"

text \<open>What one \<^verbatim>\<open>syscall()\<close> of the C library does: the value it returns, the value
  it leaves in \<^verbatim>\<open>errno\<close> when it sets it, and the signal raised on the way.\<close>

record sys_reply =
  retval :: int
  set_errno :: "int option"
  raised :: delivery

text \<open>One line of \<^verbatim>\<open>/proc/self/maps\<close> as \<^verbatim>\<open>sscanf\<close> reads it: the number of
  fields converted and the fields the scan looks at. \<^verbatim>\<open>perm\<close> is read with
  \<^verbatim>\<open>%4s\<close> and \<^verbatim>\<open>libc_path\<close> with \<^verbatim>\<open>%s\<close>, so both are free of white space.\<close>

record maps_line =
  n_conv :: int
  map_begin :: "64 word"
  map_end :: "64 word"
  perm :: string
  libc_path :: string

text \<open>
  \<^verbatim>\<open>exercise_x86\<close> is the build option \<^verbatim>\<open>STRESS_EXERCISE_X86_SYSCALL\<close>;
  \<^verbatim>\<open>USR_SYSCALL\<close> and \<^verbatim>\<open>NR_getpid\<close> are the platform's numbers
  (\<^verbatim>\<open>__NR_syscalls + 256\<close> or \<^verbatim>\<open>0xe000\<close>, and \<^verbatim>\<open>__NR_getpid\<close>).
  \<^verbatim>\<open>proc_self_maps\<close> is \<open>None\<close> when \<^verbatim>\<open>fopen\<close> fails. The k-th call of
  \<^verbatim>\<open>prctl\<close> answers with its return value and the errno it sets; the k-th
  \<^verbatim>\<open>syscall()\<close> and the k-th raw \<^verbatim>\<open>syscall\<close> instruction answer knowing the
  selector byte and the number asked for.
\<close>

record uenv =
  exercise_x86 :: bool
  USR_SYSCALL :: int
  NR_getpid :: int
  proc_self_maps :: "maps_line list option"
  getpid :: int
  sys_sigaction :: int
  sys_prctl :: "nat \<Rightarrow> int \<times> int option"
  sys_syscall :: "nat \<Rightarrow> selector_t \<Rightarrow> int \<Rightarrow> sys_reply"
  sys_raw_syscall :: "nat \<Rightarrow> selector_t \<Rightarrow> int \<Rightarrow> int \<times> delivery"
  keep_stressing_u :: "nat \<Rightarrow> bool"

record ustate = log +
  selector :: selector_t
  siginfo :: siginfo_t
  errno :: int
  n_prctl :: nat
  n_syscall :: nat
  n_raw :: nat
  n_keep_u :: nat

datatype jump = Proceed | LoopContinue | LoopBreak | GotoErr

definition dispatcher_off :: "ustate \<Rightarrow> ustate" where
  "dispatcher_off s = s\<lparr>selector := SYSCALL_DISPATCH_FILTER_ALLOW\<rparr>"

definition dispatcher_on :: "ustate \<Rightarrow> ustate" where
  "dispatcher_on s = s\<lparr>selector := SYSCALL_DISPATCH_FILTER_BLOCK\<rparr>"

definition prctl :: "uenv \<Rightarrow> bool \<Rightarrow> 64 word \<Rightarrow> 64 word \<Rightarrow> ustate \<Rightarrow> int \<times> ustate" where
  "prctl e on offset len s =
     (case sys_prctl e (n_prctl s) of
        (ret, err) \<Rightarrow>
          (ret,
           emit (Prctl on offset len)
             (s\<lparr>errno := (case err of None \<Rightarrow> errno s | Some v \<Rightarrow> v),
                n_prctl := Suc (n_prctl s)\<rparr>)))"

definition stress_supported :: "uenv \<Rightarrow> ustate \<Rightarrow> int \<times> ustate" where
  "stress_supported e s0 =
     (let s1 = dispatcher_off s0;
          (ret, s2) = prctl e True 0 0 s1
      in if ret \<noteq> 0
         then (- 1, pr_inf_skip ''prctl user dispatch is not working, skipping the stressor'' s2)
         else (0, s2))"

subsection \<open>stress_sigsys_handler\<close>

definition stress_sigsys_handler :: "siginfo_t option \<Rightarrow> ustate \<Rightarrow> ustate" where
  "stress_sigsys_handler info s0 =
     (let s1 = dispatcher_off s0
      in case info of None \<Rightarrow> s1 | Some i \<Rightarrow> s1\<lparr>siginfo := i\<rparr>)"

definition deliver :: "delivery \<Rightarrow> ustate \<Rightarrow> ustate" where
  "deliver d s = (case d of NoSignal \<Rightarrow> s | Sigsys info \<Rightarrow> stress_sigsys_handler info s)"

text \<open>\<^verbatim>\<open>syscall(nr)\<close>: the kernel reads the selector byte, the handler runs if SIGSYS is
  raised, and the C library stores errno when the call fails.\<close>

definition syscall :: "uenv \<Rightarrow> int \<Rightarrow> ustate \<Rightarrow> int \<times> ustate" where
  "syscall e nr s0 =
     (let r = sys_syscall e (n_syscall s0) (selector s0) nr;
          s1 = emit (Syscall nr (selector s0)) (s0\<lparr>n_syscall := Suc (n_syscall s0)\<rparr>);
          s2 = deliver (raised r) s1
      in (retval r, s2\<lparr>errno := (case set_errno r of None \<Rightarrow> errno s2 | Some v \<Rightarrow> v)\<rparr>))"

text \<open>The cast \<^verbatim>\<open>(int)\<close> of a long.\<close>

definition int_of_long :: "int \<Rightarrow> int" where
  "int_of_long x = sint (word_of_int x :: 32 word)"

subsection \<open>x86_64_syscall0\<close>

definition x86_64_syscall0 :: "uenv \<Rightarrow> int \<Rightarrow> ustate \<Rightarrow> int \<times> ustate" where
  "x86_64_syscall0 e number s0 =
     (case sys_raw_syscall e (n_raw s0) (selector s0) number of
        (ret, d) \<Rightarrow>
          (let s1 = emit (RawSyscall number (selector s0)) (s0\<lparr>n_raw := Suc (n_raw s0)\<rparr>);
               s2 = deliver d s1
           in if ret < 0 then (- 1, s2\<lparr>errno := int_of_long (- ret)\<rparr>) else (ret, s2)))"

subsection \<open>stress_sigsys_libc_mapping\<close>

text \<open>\<^verbatim>\<open>strstr(haystack, needle) != NULL\<close>.\<close>

fun strstr :: "string \<Rightarrow> string \<Rightarrow> bool" where
  "strstr [] needle = (needle = [])"
| "strstr (c # cs) needle = (take (length needle) (c # cs) = needle \<or> strstr cs needle)"

text \<open>\<^verbatim>\<open>!strncmp(s, t, 4)\<close> for strings that hold no NUL.\<close>

definition strncmp4_eq :: "string \<Rightarrow> string \<Rightarrow> bool" where
  "strncmp4_eq s t \<longleftrightarrow> take 4 s = take 4 t"

text \<open>The loop over the lines that \<^verbatim>\<open>fgets\<close> delivers; the pair is
  \<^verbatim>\<open>(*begin, *end)\<close>.\<close>

fun scan_maps :: "maps_line list \<Rightarrow> 64 word \<times> 64 word \<Rightarrow> 64 word \<times> 64 word" where
  "scan_maps [] (b, e) = (b, e)"
| "scan_maps (l # ls) (b, e) =
     scan_maps ls
       (if n_conv l = 8 \<and> strncmp4_eq (perm l) ''r-xp'' \<and> strstr (libc_path l) ''.so'' then
          (if strstr (libc_path l) ''/libc-'' \<or> strstr (libc_path l) ''/libc.so'' then
             (if b > map_begin l then map_begin l else b,
              if e < map_end l then map_end l else e)
           else (b, e))
        else (b, e))"

definition stress_sigsys_libc_mapping :: "maps_line list option \<Rightarrow> int \<times> 64 word \<times> 64 word" where
  "stress_sigsys_libc_mapping fp =
     (case fp of
        None \<Rightarrow> (- 1, 0, 0)
      | Some ls \<Rightarrow>
          (case scan_maps ls (- 1, 0) of
             (b, e) \<Rightarrow> if b = - 1 \<or> e = 0 then (- 1, 0, 0) else (0, b, e)))"

subsection \<open>stress_usersyscall\<close>

text \<open>Test case 1: the user system call with the dispatcher disabled.\<close>

definition test_case_1 :: "uenv \<Rightarrow> ustate \<Rightarrow> jump \<times> ustate" where
  "test_case_1 e s0 =
     (let s1 = dispatcher_off s0;
          (ret, s2) = prctl e True 0 0 s1
      in if ret \<noteq> 0 then (LoopBreak, pr_inf ''user dispatch failed'' s2)
         else
           (let s3 = s2\<lparr>errno := 0\<rparr>;
                (r, s4) = syscall e (USR_SYSCALL e) s3
            in (Proceed,
                if errno s4 \<noteq> ENOSYS
                then pr_fail ''didn't get ENOSYS on user syscall'' s4
                else s4)))"

text \<open>Test case 2: the user system call with the dispatcher enabled, followed by the
  \<^verbatim>\<open>prctl\<close> that switches user dispatch off.\<close>

definition test_case_2 :: "uenv \<Rightarrow> ustate \<Rightarrow> jump \<times> ustate" where
  "test_case_2 e s0 =
     (let s1 = s0\<lparr>siginfo := \<lparr>si_code = 0, si_errno = 0\<rparr>\<rparr>;
          s2 = dispatcher_on s1;
          (r, s3) = syscall e (USR_SYSCALL e) s2;
          ret = int_of_long r;
          s4 = dispatcher_off s3
      in if ret \<noteq> USR_SYSCALL e then
           (if errno s4 = ENOSYS
            then (GotoErr, pr_inf_skip ''got ENOSYS for usersyscall, skipping stressor'' s4)
            else (LoopContinue, pr_fail ''didn't get USR_SYSCALL on user syscall'' s4))
         else if si_code (siginfo s4) \<noteq> SYS_USER_DISPATCH then
           (LoopContinue, pr_fail ''didn't get SYS_USER_DISPATCH in siginfo.si_code'' s4)
         else if si_errno (siginfo s4) \<noteq> 0 then
           (LoopContinue, pr_fail ''didn't get 0x0 in siginfo.si_errno'' s4)
         else (Proceed, snd (prctl e False 0 0 s4)))"

text \<open>Test case 3: \<^verbatim>\<open>getpid\<close> from inside and from outside the C library, with the
  library's text as the allowed range.\<close>

definition test_case_3 :: "uenv \<Rightarrow> 64 word \<Rightarrow> 64 word \<Rightarrow> ustate \<Rightarrow> ustate" where
  "test_case_3 e begin end s0 =
     (let (ret, s1) = prctl e True begin (end - begin) s0;
          s2 = (if ret \<noteq> 0 then pr_inf ''user dispatch failed'' s1 else s1);
          s3 = dispatcher_on (s2\<lparr>errno := 0\<rparr>);
          (r, s4) = syscall e (NR_getpid e) s3;
          ret_libc = int_of_long r;
          s5 = dispatcher_off s4;
          s6 = dispatcher_on (s5\<lparr>errno := 0\<rparr>);
          (r', s7) = x86_64_syscall0 e (NR_getpid e) s6;
          ret_not_libc = int_of_long r';
          s8 = dispatcher_off s7;
          s9 = snd (prctl e False 0 0 s8);
          s10 = (if ret_libc \<noteq> getpid e
                 then pr_fail ''didn't get pid on libc getpid syscall'' s9 else s9)
      in if ret_not_libc \<noteq> NR_getpid e
         then pr_fail ''didn't get __NR_getpid on user syscall'' s10 else s10)"

text \<open>The body of the do-while loop. \<open>LoopContinue\<close> is both C's \<^verbatim>\<open>continue\<close> and
  the end of the body: either way \<^verbatim>\<open>keep_stressing\<close> is asked next.\<close>

definition iteration_u :: "uenv \<Rightarrow> bool \<Rightarrow> 64 word \<Rightarrow> 64 word \<Rightarrow> ustate \<Rightarrow> jump \<times> ustate" where
  "iteration_u e libc_ok begin end s0 =
     (case test_case_1 e s0 of
        (j1, s1) \<Rightarrow>
          if j1 \<noteq> Proceed then (j1, s1)
          else
            (case test_case_2 e s1 of
               (j2, s2) \<Rightarrow>
                 if j2 \<noteq> Proceed then (j2, s2)
                 else
                   (LoopContinue,
                    inc_counter
                      (if exercise_x86 e \<and> libc_ok then test_case_3 e begin end s2 else s2))))"

fun usersyscall_loop ::
  "nat \<Rightarrow> uenv \<Rightarrow> bool \<Rightarrow> 64 word \<Rightarrow> 64 word \<Rightarrow> ustate \<Rightarrow> (exit_status \<times> ustate) option"
where
  "usersyscall_loop 0 e libc_ok begin end s = None"
| "usersyscall_loop (Suc fuel) e libc_ok begin end s =
     (case iteration_u e libc_ok begin end s of
        (GotoErr, s') \<Rightarrow> Some (EXIT_NOT_IMPLEMENTED, s')
      | (LoopBreak, s') \<Rightarrow> Some (EXIT_SUCCESS, s')
      | (j, s') \<Rightarrow>
          if keep_stressing_u e (n_keep_u s')
          then usersyscall_loop fuel e libc_ok begin end (s'\<lparr>n_keep_u := Suc (n_keep_u s')\<rparr>)
          else Some (EXIT_SUCCESS, s'\<lparr>n_keep_u := Suc (n_keep_u s')\<rparr>))"

text \<open>The state at entry: the statics \<^verbatim>\<open>siginfo\<close> and \<^verbatim>\<open>selector\<close> are zero.\<close>

definition entry :: ustate where
  "entry = \<lparr>trace = [], selector = SYSCALL_DISPATCH_FILTER_ALLOW,
            siginfo = \<lparr>si_code = 0, si_errno = 0\<rparr>, errno = 0,
            n_prctl = 0, n_syscall = 0, n_raw = 0, n_keep_u = 0\<rparr>"

definition stress_usersyscall :: "nat \<Rightarrow> uenv \<Rightarrow> ustate \<Rightarrow> (exit_status \<times> ustate) option" where
  "stress_usersyscall fuel e s0 =
     (case stress_sigsys_libc_mapping (proc_self_maps e) of
        (rc, begin, end) \<Rightarrow>
          (let libc_ok = (exercise_x86 e \<and> rc = 0);
               s1 = emit Sigaction s0
           in if sys_sigaction e < 0
              then Some (EXIT_NO_RESOURCE, pr_fail ''sigaction SIGSYS'' s1)
              else usersyscall_loop fuel e libc_ok begin end s1))"

section \<open>Notions used to state the properties\<close>

text \<open>An order is a permutation of the page indices when it lists every index below
  \<^verbatim>\<open>N_PAGES\<close> exactly once.\<close>

definition is_permutation :: "nat list \<Rightarrow> bool" where
  "is_permutation order \<longleftrightarrow> distinct order \<and> set order = {..<N_PAGES}"

text \<open>An environment in which every call succeeds and the kernel does what it is asked.\<close>

definition ideal_env :: env where
  "ideal_env =
     \<lparr>have_mlock = True, sys_mmap_data = True, unmapped_addr = True,
      sys_mmap_probe = True, sys_munmap_probe = True,
      sys_mlock = (\<lambda>k. 0),
      sys_remap_file_pages = (\<lambda>k i pgoff. (0, Some pgoff)),
      time_now = (\<lambda>k. real k),
      mwc32modn = (\<lambda>k. (7 * k + 3) mod N_PAGES),
      keep_stressing = (\<lambda>k. False)\<rparr>"

text \<open>A kernel that conforms to the manual page of \<^verbatim>\<open>remap_file_pages\<close>: a call
  returns 0 and the page is then backed by the page offset asked for, or it returns -1 and
  leaves the mapping alone.\<close>

definition conforming :: "env \<Rightarrow> bool" where
  "conforming e \<longleftrightarrow>
     (\<forall>k i pgoff. sys_remap_file_pages e k i pgoff = (0, Some pgoff) \<or>
                  sys_remap_file_pages e k i pgoff = (- 1, None))"

text \<open>A kernel none of whose \<^verbatim>\<open>remap_file_pages\<close> calls returns 0.\<close>

definition never_succeeds :: "env \<Rightarrow> bool" where
  "never_succeeds e \<longleftrightarrow> (\<forall>k i pgoff. fst (sys_remap_file_pages e k i pgoff) \<noteq> 0)"

text \<open>The pages of the data region that the calls of a trace remap, in order.\<close>

fun remapped_page :: "event \<Rightarrow> nat option" where
  "remapped_page (RemapFilePages (DataPage j) prot pgoff flags) = Some j"
| "remapped_page ev = None"

definition remapped_pages :: "event list \<Rightarrow> nat list" where
  "remapped_pages evs = List.map_filter remapped_page evs"

text \<open>The reports to the metrics sink.\<close>

fun is_metric :: "event \<Rightarrow> bool" where
  "is_metric (MetricsSet idx label v) = True"
| "is_metric ev = False"

text \<open>The tags are as the set-up loop of \<^verbatim>\<open>stress_remap\<close> wrote them: object page p
  holds p in its first slot.\<close>

definition tags_intact :: "state \<Rightarrow> bool" where
  "tags_intact s \<longleftrightarrow> (\<forall>p<N_PAGES. slot0 s p = word_of_nat p)"

text \<open>An environment whose kernel refuses every \<^verbatim>\<open>mlock\<close> and every
  \<^verbatim>\<open>remap_file_pages\<close>.\<close>

definition refusing_env :: env where
  "refusing_env =
     ideal_env\<lparr>sys_mlock := (\<lambda>k. - 1), sys_remap_file_pages := (\<lambda>k i pgoff. (- 1, None))\<rparr>"

text \<open>A platform without user dispatch: every system call fails with
  \<^verbatim>\<open>ENOSYS\<close>. And one whose system calls all fail with \<^verbatim>\<open>EPERM\<close> (1).\<close>

definition nosys_uenv :: uenv where
  "nosys_uenv =
     \<lparr>exercise_x86 = False, USR_SYSCALL = 57344, NR_getpid = 39,
      proc_self_maps = None, getpid = 4242, sys_sigaction = 0,
      sys_prctl = (\<lambda>k. (0, None)),
      sys_syscall = (\<lambda>k sel nr. \<lparr>retval = - 1, set_errno = Some ENOSYS, raised = NoSignal\<rparr>),
      sys_raw_syscall = (\<lambda>k sel nr. (- 38, NoSignal)),
      keep_stressing_u = (\<lambda>k. False)\<rparr>"

definition eperm_uenv :: uenv where
  "eperm_uenv =
     nosys_uenv\<lparr>sys_syscall :=
       (\<lambda>k sel nr. \<lparr>retval = - 1, set_errno = Some 1, raised = NoSignal\<rparr>)\<rparr>"

text \<open>The lines that the scan of \<^verbatim>\<open>stress_sigsys_libc_mapping\<close> takes for the text of
  the C library.\<close>

definition is_libc_text :: "maps_line \<Rightarrow> bool" where
  "is_libc_text l \<longleftrightarrow>
     n_conv l = 8 \<and> take 4 (perm l) = ''r-xp'' \<and> strstr (libc_path l) ''.so'' \<and>
     (strstr (libc_path l) ''/libc-'' \<or> strstr (libc_path l) ''/libc.so'')"

text \<open>An excerpt of a maps file, as read by \<^verbatim>\<open>sscanf\<close>.\<close>

definition sample_maps :: "maps_line list" where
  "sample_maps =
     [\<lparr>n_conv = 8, map_begin = 0x400000, map_end = 0x452000, perm = ''r-xp'',
        libc_path = ''/bin/stress-ng''\<rparr>,
      \<lparr>n_conv = 8, map_begin = 0x7f0000028000, map_end = 0x7f00001bd000, perm = ''r-xp'',
        libc_path = ''/lib/libc.so.6''\<rparr>,
      \<lparr>n_conv = 8, map_begin = 0x7f00001bd000, map_end = 0x7f0000215000, perm = ''r--p'',
        libc_path = ''/lib/libc.so.6''\<rparr>,
      \<lparr>n_conv = 7, map_begin = 0x7f0000215000, map_end = 0x7f0000222000, perm = ''rw-p'',
        libc_path = ''/lib/libc.so.6''\<rparr>,
      \<lparr>n_conv = 8, map_begin = 0x7f0000001000, map_end = 0x7f0000003000, perm = ''r-xp'',
        libc_path = ''/lib/libc-2.31.so''\<rparr>]"

text \<open>The sequences of draws that one shuffle can consume, the order that the shuffle
  makes of such a sequence, and the number of sequences that give a permutation p. With
  uniform independent draws every sequence is equally likely, so the probability of p
  is \<open>ways p\<close> over the number of sequences.\<close>

definition draw_sequences :: "nat list set" where
  "draw_sequences = {js. set js \<subseteq> {..<N_PAGES} \<and> length js = N_PAGES}"

definition shuffled :: "nat list \<Rightarrow> nat list" where
  "shuffled js = shuffle_loop (\<lambda>i. js ! i) 0 (forward_loop 0 (replicate N_PAGES 0))"

definition ways :: "nat list \<Rightarrow> nat" where
  "ways p = card {js \<in> draw_sequences. shuffled js = p}"

text \<open>The messages of the failures reported in a trace, in order.\<close>

fun failure_of :: "event \<Rightarrow> string option" where
  "failure_of (PrFail msg) = Some msg"
| "failure_of ev = None"

definition failures :: "event list \<Rightarrow> string list" where
  "failures evs = List.map_filter failure_of evs"

text \<open>A kernel that returns 0 to each of its first n \<^verbatim>\<open>remap_file_pages\<close> calls on
  the data region, and a kernel that refuses its n-th call and, on a build with
  \<^verbatim>\<open>mlock\<close>, the call after it (the retry). Calls are numbered from 0.\<close>

definition grants_until :: "env \<Rightarrow> nat \<Rightarrow> bool" where
  "grants_until e n \<longleftrightarrow> (\<forall>k<n. \<forall>i pgoff. fst (sys_remap_file_pages e k i pgoff) = 0)"

definition refuses_at :: "env \<Rightarrow> nat \<Rightarrow> bool" where
  "refuses_at e n \<longleftrightarrow>
     (\<forall>i pgoff. fst (sys_remap_file_pages e n i pgoff) < 0 \<and>
                 (have_mlock e \<longrightarrow> fst (sys_remap_file_pages e (Suc n) i pgoff) < 0))"

text \<open>An environment whose kernel does what it is asked in its first
  \<open>2 * N_PAGES + 5\<close> calls and refuses every call after them; \<^verbatim>\<open>mlock\<close> succeeds.\<close>

definition faulty_env :: env where
  "faulty_env =
     ideal_env\<lparr>sys_remap_file_pages :=
       (\<lambda>k i pgoff. if k < 2 * N_PAGES + 5 then (0, Some pgoff) else (- 1, None))\<rparr>"

text \<open>A kernel that returns 0 to every call and backs the page with object page
  \<open>f k i pgoff\<close>, where k is the number of the call, i the virtual page and pgoff the page
  offset asked for; f stays within the object. \<open>misplaced f k order\<close>: in a pass whose
  first call is the kernel's k-th, some page i ends up backed by a page other than
  \<open>order ! i\<close>.\<close>

definition places :: "env \<Rightarrow> (nat \<Rightarrow> nat \<Rightarrow> nat \<Rightarrow> nat) \<Rightarrow> bool" where
  "places e f \<longleftrightarrow>
     (\<forall>k i pgoff. sys_remap_file_pages e k i pgoff = (0, Some (f k i pgoff)) \<and>
                   (pgoff < N_PAGES \<longrightarrow> f k i pgoff < N_PAGES))"

definition misplaced :: "(nat \<Rightarrow> nat \<Rightarrow> nat \<Rightarrow> nat) \<Rightarrow> nat \<Rightarrow> nat list \<Rightarrow> bool" where
  "misplaced f k order \<longleftrightarrow> (\<exists>i<N_PAGES. f (k + i) i (order ! i) \<noteq> order ! i)"

text \<open>An environment whose kernel returns 0 to every call but, at call
  \<open>N_PAGES + 7\<close>, installs the object page after the one asked for;
  \<^verbatim>\<open>keep_stressing\<close> answers true once.\<close>

definition misplacing_env :: env where
  "misplacing_env =
     ideal_env\<lparr>sys_remap_file_pages :=
       (\<lambda>k i pgoff. (0, Some (if k = N_PAGES + 7 then (pgoff + 1) mod N_PAGES else pgoff))),
       keep_stressing := (\<lambda>k. k = 0)\<rparr>"




section \<open>The orders\<close>

declare reverse_loop.simps [simp del] forward_loop.simps [simp del]
  all_to_1_loop.simps [simp del] shuffle_loop.simps [simp del]

lemma one_less_N_PAGES: "1 < N_PAGES"
  unfolding N_PAGES_def by simp

lemma length_reverse_loop: "length (reverse_loop i order) = length order"
  by (induction i order rule: reverse_loop.induct) (subst reverse_loop.simps, simp)

lemma nth_reverse_loop:
  "k < length order \<Longrightarrow>
   reverse_loop i order ! k = (if i \<le> k \<and> k < N_PAGES then N_PAGES - 1 - k else order ! k)"
proof (induction i order rule: reverse_loop.induct)
  case (1 i order)
  show ?case
  proof (cases "i < N_PAGES")
    case True
    with 1 show ?thesis
      by (subst reverse_loop.simps) (auto simp: nth_list_update)
  next
    case False
    then show ?thesis
      by (subst reverse_loop.simps) simp
  qed
qed

lemma length_forward_loop: "length (forward_loop i order) = length order"
  by (induction i order rule: forward_loop.induct) (subst forward_loop.simps, simp)

lemma nth_forward_loop:
  "k < length order \<Longrightarrow>
   forward_loop i order ! k = (if i \<le> k \<and> k < N_PAGES then k else order ! k)"
proof (induction i order rule: forward_loop.induct)
  case (1 i order)
  show ?case
  proof (cases "i < N_PAGES")
    case True
    with 1 show ?thesis
      by (subst forward_loop.simps) (auto simp: nth_list_update)
  next
    case False
    then show ?thesis
      by (subst forward_loop.simps) simp
  qed
qed

lemma length_all_to_1_loop: "length (all_to_1_loop i order) = length order"
  by (induction i order rule: all_to_1_loop.induct) (subst all_to_1_loop.simps, simp)

lemma nth_all_to_1_loop:
  "k < length order \<Longrightarrow>
   all_to_1_loop i order ! k = (if i \<le> k \<and> k < N_PAGES then 0 else order ! k)"
proof (induction i order rule: all_to_1_loop.induct)
  case (1 i order)
  show ?case
  proof (cases "i < N_PAGES")
    case True
    with 1 show ?thesis
      by (subst all_to_1_loop.simps) (auto simp: nth_list_update)
  next
    case False
    then show ?thesis
      by (subst all_to_1_loop.simps) simp
  qed
qed

lemma forward_loop_upt:
  assumes "length order = N_PAGES"
  shows "forward_loop 0 order = [0..<N_PAGES]"
  using assms by (intro nth_equalityI) (simp_all add: length_forward_loop nth_forward_loop)

lemma reverse_loop_rev:
  assumes "length order = N_PAGES"
  shows "reverse_loop 0 order = rev [0..<N_PAGES]"
  using assms
  by (intro nth_equalityI) (simp_all add: length_reverse_loop nth_reverse_loop rev_nth)

lemma all_to_1_loop_replicate:
  assumes "length order = N_PAGES"
  shows "all_to_1_loop 0 order = replicate N_PAGES 0"
  using assms by (intro nth_equalityI) (simp_all add: length_all_to_1_loop nth_all_to_1_loop)

lemma shuffle_loop_step:
  "i < N_PAGES \<Longrightarrow>
   shuffle_loop rnd i order =
   shuffle_loop rnd (Suc i) (order[i := order ! rnd i, rnd i := order ! i])"
  by (subst shuffle_loop.simps) (simp add: Let_def)

lemma shuffle_loop_done: "\<not> i < N_PAGES \<Longrightarrow> shuffle_loop rnd i order = order"
  by (subst shuffle_loop.simps) simp

lemma shuffle_loop_perm:
  assumes "\<forall>i<N_PAGES. rnd i < N_PAGES" "length order = N_PAGES"
  shows "length (shuffle_loop rnd i order) = N_PAGES \<and>
         set (shuffle_loop rnd i order) = set order \<and>
         distinct (shuffle_loop rnd i order) = distinct order"
  using assms
proof (induction rnd i order rule: shuffle_loop.induct)
  case (1 rnd i order)
  show ?case
  proof (cases "i < N_PAGES")
    case True
    let ?o = "order[i := order ! rnd i, rnd i := order ! i]"
    from True 1(2,3) have j: "rnd i < length order" and i: "i < length order" by auto
    have len: "length ?o = N_PAGES" using 1(3) by simp
    have "length (shuffle_loop rnd (Suc i) ?o) = N_PAGES \<and>
          set (shuffle_loop rnd (Suc i) ?o) = set ?o \<and>
          distinct (shuffle_loop rnd (Suc i) ?o) = distinct ?o"
      by (rule 1(1)[OF True refl refl refl refl 1(2) len])
    moreover have "set ?o = set order" using i j by (rule set_swap)
    moreover have "distinct ?o = distinct order" using i j by (rule distinct_swap)
    ultimately show ?thesis
      by (simp only: shuffle_loop_step[OF True])
  next
    case False
    with 1(3) show ?thesis by (simp add: shuffle_loop_done)
  qed
qed

lemma not_distinct_replicate: "1 < n \<Longrightarrow> \<not> distinct (replicate n x)"
  by (cases n; cases "n - 1") auto

lemma not_distinct_zeros: "\<not> distinct (replicate N_PAGES (0::nat))"
  using one_less_N_PAGES by (rule not_distinct_replicate)

lemma is_permutation_upt: "is_permutation [0..<N_PAGES]"
  unfolding is_permutation_def by (simp only: distinct_upt set_upt atLeast0LessThan simp_thms)

lemma is_permutation_rev: "is_permutation (rev [0..<N_PAGES])"
  unfolding is_permutation_def
  by (simp only: distinct_rev set_rev distinct_upt set_upt atLeast0LessThan simp_thms)

lemma is_permutation_shuffle:
  assumes "\<forall>i<N_PAGES. rnd i < N_PAGES"
  shows "is_permutation (shuffle_loop rnd 0 [0..<N_PAGES])"
proof -
  have "length [0..<N_PAGES] = N_PAGES" by (simp only: length_upt diff_zero)
  from shuffle_loop_perm[OF assms this, of 0] is_permutation_upt
  show ?thesis unfolding is_permutation_def by (simp only: simp_thms)
qed

lemma mwc32modn_ideal: "mwc32modn ideal_env k < N_PAGES"
  unfolding ideal_env_def N_PAGES_def by simp

text \<open>
  C2, as amended. The reverse order, the random order (whatever the draws, as long as
  each is below \<^verbatim>\<open>N_PAGES\<close>) and the restoring order are permutations of the page
  indices. The collapsing order is not: it is \<^verbatim>\<open>N_PAGES\<close> zeros, mapping every
  page onto page 0.
\<close>

theorem orders_of_iteration:
  assumes "length order = N_PAGES" and "\<forall>k. mwc32modn e k < N_PAGES"
  shows "is_permutation (reverse_loop 0 order) \<and>
         is_permutation (fst (random_order e order s)) \<and>
         is_permutation (forward_loop 0 order) \<and>
         all_to_1_loop 0 order = replicate N_PAGES 0 \<and>
         \<not> is_permutation (all_to_1_loop 0 order)"
proof -
  have "is_permutation (reverse_loop 0 order)"
    using assms(1) by (simp only: reverse_loop_rev is_permutation_rev)
  moreover have "is_permutation (fst (random_order e order s))"
    using assms is_permutation_shuffle[of "\<lambda>i. mwc32modn e (n_rand s + i)"]
    by (simp add: random_order_def forward_loop_upt)
  moreover have "is_permutation (forward_loop 0 order)"
    using assms(1) by (simp only: forward_loop_upt is_permutation_upt)
  moreover have z: "all_to_1_loop 0 order = replicate N_PAGES 0"
    using assms(1) by (rule all_to_1_loop_replicate)
  moreover have "\<not> is_permutation (all_to_1_loop 0 order)"
    unfolding z is_permutation_def using not_distinct_zeros by (simp only: simp_thms)
  ultimately show ?thesis by (simp only: simp_thms)
qed

theorem orders_of_iteration_witness:
  "is_permutation (reverse_loop 0 (replicate N_PAGES 0)) \<and>
   is_permutation (fst (random_order ideal_env (replicate N_PAGES 0) fresh)) \<and>
   is_permutation (forward_loop 0 (replicate N_PAGES 0)) \<and>
   all_to_1_loop 0 (replicate N_PAGES 0) = replicate N_PAGES 0 \<and>
   \<not> is_permutation (all_to_1_loop 0 (replicate N_PAGES 0))"
proof -
  have "length (replicate N_PAGES (0::nat)) = N_PAGES" by (rule length_replicate)
  moreover have "\<forall>k. mwc32modn ideal_env k < N_PAGES"
    using mwc32modn_ideal by (rule allI)
  ultimately show ?thesis by (rule orders_of_iteration)
qed

text \<open>
  C2, as stated, fails: within one iteration the four orders are not all permutations,
  because the collapsing order repeats page 0.
\<close>

theorem collapse_order_not_permutation:
  "\<not> (is_permutation (reverse_loop 0 (replicate N_PAGES 0)) \<and>
      is_permutation (fst (random_order ideal_env (replicate N_PAGES 0) fresh)) \<and>
      is_permutation (all_to_1_loop 0 (replicate N_PAGES 0)) \<and>
      is_permutation (forward_loop 0 (replicate N_PAGES 0)))"
proof -
  have "all_to_1_loop 0 (replicate N_PAGES 0) = replicate N_PAGES 0"
    by (rule all_to_1_loop_replicate) (rule length_replicate)
  then have "\<not> is_permutation (all_to_1_loop 0 (replicate N_PAGES 0))"
    unfolding is_permutation_def using not_distinct_zeros by (simp only: simp_thms)
  then show ?thesis by (simp only: simp_thms)
qed

section \<open>One page, one pass, one iteration\<close>

declare remap_order_loop.simps [simp del] check_order_loop.simps [simp del]
  init_loop.simps [simp del]

lemmas remap_page_defs =
  remap_page_def remap_file_pages_def mlock_def munlock_def stress_time_now_def emit_def
  Let_def

lemma remap_page_trace:
  "trace (snd (remap_page e order i s)) =
     trace s @
     (if have_mlock e then [Mlock i] else []) @
     [RemapFilePages (DataPage i) 0 (order ! i) 0] @
     (if have_mlock e \<and> sys_mlock e (n_mlock s) = 0 then [Munlock i] else []) @
     (if have_mlock e \<and> fst (sys_remap_file_pages e (n_remap s) i (order ! i)) \<noteq> 0
      then [RemapFilePages (DataPage i) 0 (order ! i) 0] else [])"
  by (simp add: remap_page_defs split_beta)

lemma remap_page_ret:
  "fst (remap_page e order i s) =
     (if have_mlock e \<and> fst (sys_remap_file_pages e (n_remap s) i (order ! i)) \<noteq> 0
      then fst (sys_remap_file_pages e (Suc (n_remap s)) i (order ! i))
      else fst (sys_remap_file_pages e (n_remap s) i (order ! i)))"
  by (simp add: remap_page_defs split_beta)

lemma remap_page_count:
  "count (snd (remap_page e order i s)) =
     count s + (if fst (sys_remap_file_pages e (n_remap s) i (order ! i)) = 0 then 1 else 0)"
  by (simp add: remap_page_defs split_beta)

lemma remap_page_duration:
  "duration (snd (remap_page e order i s)) =
     duration s +
     (if fst (sys_remap_file_pages e (n_remap s) i (order ! i)) = 0
      then time_now e (Suc (n_time s)) - time_now e (n_time s) else 0)"
  by (simp add: remap_page_defs split_beta)

lemma remap_page_slot0: "slot0 (snd (remap_page e order i s)) = slot0 s"
  by (simp add: remap_page_defs split_beta)

lemma remap_page_backing_other:
  "j \<noteq> i \<Longrightarrow> backing (snd (remap_page e order i s)) j = backing s j"
  by (simp add: remap_page_defs split_beta split: option.splits)

lemma conforming_cases:
  assumes "conforming e"
  obtains "sys_remap_file_pages e k i pgoff = (0, Some pgoff)"
        | "sys_remap_file_pages e k i pgoff = (- 1, None)"
  using assms unfolding conforming_def by blast

lemma remap_page_conforming:
  assumes "conforming e" and "\<not> fst (remap_page e order i s) < 0"
  shows "backing (snd (remap_page e order i s)) i = order ! i"
proof -
  let ?p = "order ! i"
  consider (a) "sys_remap_file_pages e (n_remap s) i ?p = (0, Some ?p)"
    | (b) "sys_remap_file_pages e (n_remap s) i ?p = (- 1, None)"
    using assms(1) by (rule conforming_cases)
  then show ?thesis
  proof cases
    case a
    then show ?thesis by (simp add: remap_page_defs split_beta)
  next
    case b
    consider (c) "sys_remap_file_pages e (Suc (n_remap s)) i ?p = (0, Some ?p)"
      | (d) "sys_remap_file_pages e (Suc (n_remap s)) i ?p = (- 1, None)"
      using assms(1) by (rule conforming_cases)
    then show ?thesis
    proof cases
      case c
      with b assms(2) show ?thesis
        by (simp add: remap_page_defs split_beta split: if_splits)
    next
      case d
      with b assms(2) show ?thesis
        by (simp add: remap_page_defs split_beta split: if_splits)
    qed
  qed
qed

lemma remapped_pages_append [simp]:
  "remapped_pages (xs @ ys) = remapped_pages xs @ remapped_pages ys"
  by (simp add: remapped_pages_def map_filter_def)

lemma remapped_pages_simps [simp]:
  "remapped_pages [] = []"
  "remapped_pages (RemapFilePages (DataPage j) a p b # evs) = j # remapped_pages evs"
  "remapped_pages (Mlock j # evs) = remapped_pages evs"
  "remapped_pages (Munlock j # evs) = remapped_pages evs"
  "remapped_pages (PrFail m # evs) = remapped_pages evs"
  by (simp_all add: remapped_pages_def map_filter_def)

lemma remap_order_loop_fail:
  "i < N_PAGES \<Longrightarrow> fst (remap_page e order i s) < 0 \<Longrightarrow>
   remap_order_loop e order i s =
     (- 1, pr_fail ''remap_file_pages failed'' (snd (remap_page e order i s)))"
  by (subst remap_order_loop.simps) (simp add: split_beta)

lemma remap_order_loop_next:
  "i < N_PAGES \<Longrightarrow> \<not> fst (remap_page e order i s) < 0 \<Longrightarrow>
   remap_order_loop e order i s = remap_order_loop e order (Suc i) (snd (remap_page e order i s))"
  by (subst remap_order_loop.simps) (simp add: split_beta)

lemma remap_order_loop_done:
  "\<not> i < N_PAGES \<Longrightarrow> remap_order_loop e order i s = (0, s)"
  by (subst remap_order_loop.simps) simp

lemma remap_order_loop_ret:
  "fst (remap_order_loop e order i s) = 0 \<or> fst (remap_order_loop e order i s) = - 1"
proof (induction "N_PAGES - i" arbitrary: i s)
  case 0
  then show ?case by (simp add: remap_order_loop_done)
next
  case (Suc n)
  then have i: "i < N_PAGES" by simp
  show ?case
  proof (cases "fst (remap_page e order i s) < 0")
    case True
    with i show ?thesis by (simp add: remap_order_loop_fail)
  next
    case False
    from Suc(2) have "n = N_PAGES - Suc i" by simp
    from Suc(1)[OF this] i False show ?thesis by (simp add: remap_order_loop_next)
  qed
qed

lemma remap_order_loop_slot0:
  "slot0 (snd (remap_order_loop e order i s)) = slot0 s"
proof (induction "N_PAGES - i" arbitrary: i s)
  case 0
  then show ?case by (simp add: remap_order_loop_done)
next
  case (Suc n)
  then have i: "i < N_PAGES" by simp
  show ?case
  proof (cases "fst (remap_page e order i s) < 0")
    case True
    with i show ?thesis
      by (simp add: remap_order_loop_fail pr_fail_def emit_def remap_page_slot0)
  next
    case False
    from Suc(2) have "n = N_PAGES - Suc i" by simp
    from Suc(1)[OF this] i False show ?thesis
      by (simp add: remap_order_loop_next remap_page_slot0)
  qed
qed

lemma remap_order_loop_backing:
  assumes "conforming e" and "\<not> fst (remap_order_loop e order i s) < 0"
  shows "backing (snd (remap_order_loop e order i s)) j =
           (if i \<le> j \<and> j < N_PAGES then order ! j else backing s j)"
  using assms(2)
proof (induction "N_PAGES - i" arbitrary: i s)
  case 0
  then show ?case by (simp add: remap_order_loop_done)
next
  case (Suc n)
  then have i: "i < N_PAGES" by simp
  show ?case
  proof (cases "fst (remap_page e order i s) < 0")
    case True
    with i Suc(3) show ?thesis by (simp add: remap_order_loop_fail)
  next
    case False
    let ?s = "snd (remap_page e order i s)"
    from Suc(2) have n: "n = N_PAGES - Suc i" by simp
    from Suc(3) i False have "\<not> fst (remap_order_loop e order (Suc i) ?s) < 0"
      by (simp add: remap_order_loop_next)
    from Suc(1)[OF n this]
    have "backing (snd (remap_order_loop e order (Suc i) ?s)) j =
            (if Suc i \<le> j \<and> j < N_PAGES then order ! j else backing ?s j)" .
    moreover have "backing ?s i = order ! i"
      using assms(1) False by (rule remap_page_conforming)
    moreover have "j \<noteq> i \<Longrightarrow> backing ?s j = backing s j"
      by (rule remap_page_backing_other)
    ultimately show ?thesis
      using i False by (cases "j = i") (auto simp: remap_order_loop_next)
  qed
qed

lemma remap_page_events:
  "\<exists>evs. trace (snd (remap_page e order i s)) = trace s @ evs \<and>
         set (remapped_pages evs) = {i} \<and> filter is_metric evs = [] \<and>
         (fst (remap_page e order i s) < 0 \<longrightarrow>
            (\<exists>pre. evs = pre @ [RemapFilePages (DataPage i) 0 (order ! i) 0]))"
  by (auto simp: remap_page_trace remap_page_ret)

lemma remap_order_loop_events:
  "\<exists>evs. trace (snd (remap_order_loop e order i s)) = trace s @ evs \<and>
         filter is_metric evs = [] \<and>
         (fst (remap_order_loop e order i s) < 0 \<longrightarrow>
            (\<exists>k pre. i \<le> k \<and> k < N_PAGES \<and>
               evs = pre @ [RemapFilePages (DataPage k) 0 (order ! k) 0,
                            PrFail ''remap_file_pages failed''] \<and>
               set (remapped_pages evs) = {i..k}))"
proof (induction "N_PAGES - i" arbitrary: i s)
  case 0
  then show ?case by (simp add: remap_order_loop_done)
next
  case (Suc n)
  then have i: "i < N_PAGES" by simp
  let ?s = "snd (remap_page e order i s)"
  obtain evs where evs: "trace ?s = trace s @ evs" "set (remapped_pages evs) = {i}"
    "filter is_metric evs = []"
    "fst (remap_page e order i s) < 0 \<longrightarrow>
       (\<exists>pre. evs = pre @ [RemapFilePages (DataPage i) 0 (order ! i) 0])"
    using remap_page_events by blast
  show ?case
  proof (cases "fst (remap_page e order i s) < 0")
    case True
    with evs(4) obtain pre where pre: "evs = pre @ [RemapFilePages (DataPage i) 0 (order ! i) 0]"
      by blast
    have "trace (snd (remap_order_loop e order i s)) =
            trace s @ evs @ [PrFail ''remap_file_pages failed'']"
      using i True evs(1) by (simp add: remap_order_loop_fail pr_fail_def emit_def)
    moreover have "filter is_metric (evs @ [PrFail ''remap_file_pages failed'']) = []"
      using evs(3) by simp
    moreover have "evs @ [PrFail ''remap_file_pages failed''] =
        pre @ [RemapFilePages (DataPage i) 0 (order ! i) 0, PrFail ''remap_file_pages failed'']"
      using pre by simp
    moreover have "set (remapped_pages (evs @ [PrFail ''remap_file_pages failed''])) = {i..i}"
      using evs(2) by simp
    ultimately show ?thesis using i by blast
  next
    case False
    from Suc(2) have n: "n = N_PAGES - Suc i" by simp
    have eq: "remap_order_loop e order i s = remap_order_loop e order (Suc i) ?s"
      using i False by (rule remap_order_loop_next)
    from Suc(1)[OF n, of ?s] obtain evs' where evs':
      "trace (snd (remap_order_loop e order (Suc i) ?s)) = trace ?s @ evs'"
      "filter is_metric evs' = []"
      "fst (remap_order_loop e order (Suc i) ?s) < 0 \<longrightarrow>
         (\<exists>k pre. Suc i \<le> k \<and> k < N_PAGES \<and>
            evs' = pre @ [RemapFilePages (DataPage k) 0 (order ! k) 0,
                          PrFail ''remap_file_pages failed''] \<and>
            set (remapped_pages evs') = {Suc i..k})"
      by blast
    have "trace (snd (remap_order_loop e order i s)) = trace s @ (evs @ evs')"
      using eq evs(1) evs'(1) by simp
    moreover have "filter is_metric (evs @ evs') = []"
      using evs(3) evs'(2) by simp
    moreover have "fst (remap_order_loop e order i s) < 0 \<longrightarrow>
         (\<exists>k pre. i \<le> k \<and> k < N_PAGES \<and>
            evs @ evs' = pre @ [RemapFilePages (DataPage k) 0 (order ! k) 0,
                          PrFail ''remap_file_pages failed''] \<and>
            set (remapped_pages (evs @ evs')) = {i..k})"
    proof
      assume "fst (remap_order_loop e order i s) < 0"
      with eq evs'(3) obtain k pre where k: "Suc i \<le> k" "k < N_PAGES"
        "evs' = pre @ [RemapFilePages (DataPage k) 0 (order ! k) 0,
                          PrFail ''remap_file_pages failed'']"
        "set (remapped_pages evs') = {Suc i..k}"
        by auto
      have "evs @ evs' = (evs @ pre) @ [RemapFilePages (DataPage k) 0 (order ! k) 0,
                          PrFail ''remap_file_pages failed'']"
        using k(3) by simp
      moreover have "set (remapped_pages (evs @ evs')) = {i..k}"
        using evs(2) k(1,4) by auto
      ultimately show "\<exists>k pre. i \<le> k \<and> k < N_PAGES \<and>
            evs @ evs' = pre @ [RemapFilePages (DataPage k) 0 (order ! k) 0,
                          PrFail ''remap_file_pages failed''] \<and>
            set (remapped_pages (evs @ evs')) = {i..k}"
        using k(1,2) by (intro exI[of _ k] exI[of _ "evs @ pre"]) simp
    qed
    ultimately show ?thesis by blast
  qed
qed

lemma check_order_loop_iff:
  "check_order_loop order s i \<longleftrightarrow>
     (\<exists>k. i \<le> k \<and> k < N_PAGES \<and> unat (tag_at s k) \<noteq> order ! k)"
proof (induction "N_PAGES - i" arbitrary: i)
  case 0
  then show ?case by (subst check_order_loop.simps) simp
next
  case (Suc n)
  then have i: "i < N_PAGES" by simp
  from Suc(2) have "n = N_PAGES - Suc i" by simp
  from Suc(1)[OF this]
  have IH: "check_order_loop order s (Suc i) \<longleftrightarrow>
     (\<exists>k. Suc i \<le> k \<and> k < N_PAGES \<and> unat (tag_at s k) \<noteq> order ! k)" .
  show ?case
  proof (cases "unat (tag_at s i) \<noteq> order ! i")
    case True
    with i show ?thesis by (subst check_order_loop.simps) auto
  next
    case False
    then have "(\<exists>k. i \<le> k \<and> k < N_PAGES \<and> unat (tag_at s k) \<noteq> order ! k) \<longleftrightarrow>
               (\<exists>k. Suc i \<le> k \<and> k < N_PAGES \<and> unat (tag_at s k) \<noteq> order ! k)"
      by (metis Suc_leI le_neq_implies_less Suc_leD)
    with i False IH show ?thesis by (subst check_order_loop.simps) simp
  qed
qed

lemma check_order_eq:
  "check_order order name s =
     (if \<exists>i<N_PAGES. unat (tag_at s i) \<noteq> order ! i
      then pr_fail (''remap '' @ name @ '' order pages failed'') s else s)"
  by (simp add: check_order_def check_order_loop_iff)

lemma check_order_fields [simp]:
  "count (check_order order name s) = count s"
  "duration (check_order order name s) = duration s"
  "slot0 (check_order order name s) = slot0 s"
  "backing (check_order order name s) = backing s"
  "filter is_metric (trace (check_order order name s)) = filter is_metric (trace s)"
  by (simp_all add: check_order_def pr_fail_def emit_def)

lemma remap_order_loop_count:
  assumes "never_succeeds e"
  shows "count (snd (remap_order_loop e order i s)) = count s \<and>
         duration (snd (remap_order_loop e order i s)) = duration s"
proof (induction "N_PAGES - i" arbitrary: i s)
  case 0
  then show ?case by (simp add: remap_order_loop_done)
next
  case (Suc n)
  then have i: "i < N_PAGES" by simp
  have nz: "fst (sys_remap_file_pages e (n_remap s) i (order ! i)) \<noteq> 0"
    using assms by (simp add: never_succeeds_def)
  show ?case
  proof (cases "fst (remap_page e order i s) < 0")
    case True
    with i nz show ?thesis
      by (simp add: remap_order_loop_fail pr_fail_def emit_def remap_page_count
          remap_page_duration)
  next
    case False
    from Suc(2) have "n = N_PAGES - Suc i" by simp
    from Suc(1)[OF this] i False nz show ?thesis
      by (simp add: remap_order_loop_next remap_page_count remap_page_duration)
  qed
qed

lemma remap_order_metric:
  "filter is_metric (trace (snd (remap_order e order s))) = filter is_metric (trace s)"
proof -
  obtain evs where "trace (snd (remap_order_loop e order 0 s)) = trace s @ evs"
    "filter is_metric evs = []"
    using remap_order_loop_events by blast
  then show ?thesis by (simp add: remap_order_def)
qed

lemma pass_cases:
  assumes "pass e order name s = (fl, s')"
  obtains (fatal) "fl = Break" "fst (remap_order e order s) < 0"
                  "s' = snd (remap_order e order s)"
        | (checked) "fl = Continue" "\<not> fst (remap_order e order s) < 0"
                  "s' = check_order order name (snd (remap_order e order s))"
  using assms by (auto simp: pass_def split_beta split: if_splits)

lemma pass_count:
  assumes "never_succeeds e" "pass e order name s = (fl, s')"
  shows "count s' = count s"
  using assms(2)
  by (rule pass_cases) (simp_all add: remap_order_def remap_order_loop_count[OF assms(1)])

lemma pass_metric:
  assumes "pass e order name s = (fl, s')"
  shows "filter is_metric (trace s') = filter is_metric (trace s)"
  using assms by (rule pass_cases) (simp_all add: remap_order_metric)

lemma remap_order_fatal_trace:
  assumes "fst (remap_order e order s) < 0"
  shows "\<exists>tr. trace (snd (remap_order e order s)) = tr @ [PrFail ''remap_file_pages failed'']"
proof -
  let ?r = "remap_order_loop e order 0 s"
  from remap_order_loop_events[of e order 0 s] obtain evs where
    tr: "trace (snd ?r) = trace s @ evs" and
    ev: "fst ?r < 0 \<longrightarrow>
            (\<exists>k pre. 0 \<le> k \<and> k < N_PAGES \<and>
               evs = pre @ [RemapFilePages (DataPage k) 0 (order ! k) 0,
                            PrFail ''remap_file_pages failed''] \<and>
               set (remapped_pages evs) = {0..k})"
    by (elim exE conjE) (rule that; assumption)
  from assms have "fst ?r < 0" by (simp only: remap_order_def)
  with ev have "\<exists>k pre. 0 \<le> k \<and> k < N_PAGES \<and>
               evs = pre @ [RemapFilePages (DataPage k) 0 (order ! k) 0,
                            PrFail ''remap_file_pages failed''] \<and>
               set (remapped_pages evs) = {0..k}"
    by (rule mp)
  then obtain k pre where
    "evs = pre @ [RemapFilePages (DataPage k) 0 (order ! k) 0, PrFail ''remap_file_pages failed'']"
    by (elim exE conjE) (rule that; assumption)
  with tr have "trace (snd ?r) =
      (trace s @ pre @ [RemapFilePages (DataPage k) 0 (order ! k) 0]) @
      [PrFail ''remap_file_pages failed'']"
    by (simp only: append_assoc append_Cons append_Nil)
  then show ?thesis unfolding remap_order_def
    by (rule exI[where x = "trace s @ pre @ [RemapFilePages (DataPage k) 0 (order ! k) 0]"])
qed

lemma pass_break_trace:
  assumes "pass e order name s = (Break, s')"
  shows "\<exists>tr. trace s' = tr @ [PrFail ''remap_file_pages failed'']"
  using assms
proof (rule pass_cases)
  assume "fst (remap_order e order s) < 0" and s': "s' = snd (remap_order e order s)"
  from this(1) show ?thesis unfolding s' by (rule remap_order_fatal_trace)
next
  assume "Break = Continue"
  then show ?thesis by simp
qed

lemma illegal_remaps_fields [simp]:
  "count (illegal_remaps e order s) = count s"
  "duration (illegal_remaps e order s) = duration s"
  "filter is_metric (trace (illegal_remaps e order s)) = filter is_metric (trace s)"
  by (simp_all add: illegal_remaps_def emit_def)

lemma inc_counter_fields [simp]:
  "count (inc_counter s) = count s"
  "duration (inc_counter s) = duration s"
  "filter is_metric (trace (inc_counter s)) = filter is_metric (trace s)"
  "trace (inc_counter s) = trace s @ [IncCounter]"
  by (simp_all add: inc_counter_def emit_def)

section \<open>The loop, the set-up and the teardown\<close>

lemma iteration_count:
  assumes "never_succeeds e" "iteration e s = (fl, s')"
  shows "count s' = count s"
  using assms(2) unfolding iteration_def Let_def random_order_def
  by (auto split: prod.splits flow.splits dest!: pass_count[OF assms(1)])

lemma iteration_metric:
  assumes "iteration e s = (fl, s')"
  shows "filter is_metric (trace s') = filter is_metric (trace s)"
  using assms unfolding iteration_def Let_def random_order_def
  by (auto split: prod.splits flow.splits dest!: pass_metric)

lemma iteration_break_trace:
  assumes "iteration e s = (Break, s')"
  shows "\<exists>tr. trace s' = tr @ [PrFail ''remap_file_pages failed'']"
  using assms unfolding iteration_def Let_def
  by (simp split: prod.splits flow.splits) (erule pass_break_trace)+

lemma stress_loop_break:
  assumes "iteration e s = (Break, s')"
  shows "stress_loop (Suc fuel) e s = Some s'"
  using assms by simp

lemma stress_loop_count:
  assumes "never_succeeds e"
  shows "stress_loop fuel e s = Some s' \<Longrightarrow> count s' = count s"
proof (induction fuel arbitrary: s)
  case 0
  then show ?case by simp
next
  case (Suc fuel)
  obtain fl s1 where it: "iteration e s = (fl, s1)" by (cases "iteration e s")
  have c: "count s1 = count s" using assms it by (rule iteration_count)
  show ?case
  proof (cases fl)
    case Break
    with Suc(2) it c show ?thesis by simp
  next
    case Continue
    show ?thesis
    proof (cases "keep_stressing e (n_keep s1)")
      case True
      with Suc(2) it Continue
      have "stress_loop fuel e (s1\<lparr>n_keep := Suc (n_keep s1)\<rparr>) = Some s'" by simp
      from Suc(1)[OF this] c show ?thesis by simp
    next
      case False
      with Suc(2) it Continue c show ?thesis by auto
    qed
  qed
qed

lemma stress_loop_metric:
  "stress_loop fuel e s = Some s' \<Longrightarrow>
   filter is_metric (trace s') = filter is_metric (trace s)"
proof (induction fuel arbitrary: s)
  case 0
  then show ?case by simp
next
  case (Suc fuel)
  obtain fl s1 where it: "iteration e s = (fl, s1)" by (cases "iteration e s")
  have c: "filter is_metric (trace s1) = filter is_metric (trace s)"
    using it by (rule iteration_metric)
  show ?case
  proof (cases fl)
    case Break
    with Suc(2) it c show ?thesis by simp
  next
    case Continue
    show ?thesis
    proof (cases "keep_stressing e (n_keep s1)")
      case True
      with Suc(2) it Continue
      have "stress_loop fuel e (s1\<lparr>n_keep := Suc (n_keep s1)\<rparr>) = Some s'" by simp
      from Suc(1)[OF this] c show ?thesis by simp
    next
      case False
      with Suc(2) it Continue c show ?thesis by auto
    qed
  qed
qed

lemma init_loop_step:
  "i < N_PAGES \<Longrightarrow> init_loop i s = init_loop (Suc i) (store_tag i (word_of_nat i) s)"
  by (subst init_loop.simps) simp

lemma init_loop_done: "\<not> i < N_PAGES \<Longrightarrow> init_loop i s = s"
  by (subst init_loop.simps) simp

lemma init_loop_fields:
  "count (init_loop i s) = count s \<and> duration (init_loop i s) = duration s \<and>
   trace (init_loop i s) = trace s \<and> backing (init_loop i s) = backing s"
proof (induction "N_PAGES - i" arbitrary: i s)
  case 0
  then show ?case by (simp add: init_loop_done)
next
  case (Suc n)
  then have i: "i < N_PAGES" by simp
  from Suc(2) have "n = N_PAGES - Suc i" by simp
  from Suc(1)[OF this, of "store_tag i (word_of_nat i) s"] i show ?case
    by (simp add: init_loop_step store_tag_def)
qed

lemma init_loop_slot0:
  assumes "backing s = (\<lambda>i. i)"
  shows "slot0 (init_loop i s) p =
           (if i \<le> p \<and> p < N_PAGES then word_of_nat p else slot0 s p)"
  using assms
proof (induction "N_PAGES - i" arbitrary: i s)
  case 0
  then show ?case by (auto simp: init_loop_done)
next
  case (Suc n)
  then have i: "i < N_PAGES" by simp
  from Suc(2) have n: "n = N_PAGES - Suc i" by simp
  have b: "backing (store_tag i (word_of_nat i) s) = (\<lambda>i. i)"
    using Suc(3) by (simp add: store_tag_def)
  from Suc(1)[OF n b] i Suc(3) show ?case
    by (auto simp: init_loop_step store_tag_def)
qed

lemma tags_intact_init: "tags_intact (init_loop 0 fresh)"
  unfolding tags_intact_def by (simp add: init_loop_slot0 fresh_def)

lemma teardown_metric:
  "filter is_metric (trace (teardown e s)) =
     filter is_metric (trace s) @
     [MetricsSet 0 ''nanosecs per page remap''
        (if count s > 0 then Some (duration s / count s * 1000000000) else Some 0)]"
  by (simp add: teardown_def Let_def emit_def ddiv_def dmul_def)

lemma unat_tag: "p < N_PAGES \<Longrightarrow> unat (word_of_nat p :: stress_mapdata_t) = p"
  unfolding N_PAGES_def by (simp add: unat_of_nat)

lemma remap_order_tags:
  assumes "conforming e" "tags_intact s" "\<forall>i<N_PAGES. order ! i < N_PAGES"
    and "\<not> fst (remap_order e order s) < 0" and "i < N_PAGES"
  shows "unat (tag_at (snd (remap_order e order s)) i) = order ! i"
proof -
  let ?s = "snd (remap_order e order s)"
  have "backing ?s i = order ! i"
    using remap_order_loop_backing[OF assms(1), of order 0 s i] assms(4,5)
    by (simp add: remap_order_def)
  moreover have "slot0 ?s = slot0 s"
    by (simp add: remap_order_def remap_order_loop_slot0)
  moreover have "order ! i < N_PAGES" using assms(3,5) by simp
  ultimately have "tag_at ?s i = word_of_nat (order ! i)"
    using assms(2) by (simp add: tag_at_def tags_intact_def)
  then show ?thesis using \<open>order ! i < N_PAGES\<close> by (simp add: unat_tag)
qed

lemma remap_order_loop_succeeds:
  assumes "\<forall>k i pgoff. fst (sys_remap_file_pages e k i pgoff) = 0"
  shows "fst (remap_order_loop e order i s) = 0"
proof (induction "N_PAGES - i" arbitrary: i s)
  case 0
  then show ?case by (simp add: remap_order_loop_done)
next
  case (Suc n)
  then have i: "i < N_PAGES" by simp
  have z: "fst (remap_page e order i s) = 0"
    using assms by (simp add: remap_page_ret)
  from Suc(2) have "n = N_PAGES - Suc i" by simp
  from Suc(1)[OF this] i z show ?case by (simp add: remap_order_loop_next)
qed

lemma zero_less_N_PAGES: "0 < N_PAGES"
  unfolding N_PAGES_def by simp

text \<open>
  C4, as amended. On a build with \<^verbatim>\<open>mlock\<close>, a remap call for page i that fails is
  retried exactly once, after the pin (if one was taken) has been released, whether or
  not a pin was held; what the retry returns is what the test for a fatal failure sees. On
  a build without \<^verbatim>\<open>mlock\<close> there is no pin and no retry. The calls that the loop
  body makes for page i, in order, and the value it hands to the test:
\<close>

theorem remap_page_retry:
  "trace (snd (remap_page e order i s)) =
     trace s @
     (if have_mlock e then [Mlock i] else []) @
     [RemapFilePages (DataPage i) 0 (order ! i) 0] @
     (if have_mlock e \<and> sys_mlock e (n_mlock s) = 0 then [Munlock i] else []) @
     (if have_mlock e \<and> fst (sys_remap_file_pages e (n_remap s) i (order ! i)) \<noteq> 0
      then [RemapFilePages (DataPage i) 0 (order ! i) 0] else []) \<and>
   fst (remap_page e order i s) =
     (if have_mlock e \<and> fst (sys_remap_file_pages e (n_remap s) i (order ! i)) \<noteq> 0
      then fst (sys_remap_file_pages e (Suc (n_remap s)) i (order ! i))
      else fst (sys_remap_file_pages e (n_remap s) i (order ! i)))"
  using remap_page_trace[of e order i s] remap_page_ret[of e order i s] by (rule conjI)

text \<open>
  C4, as stated, fails: when \<^verbatim>\<open>mlock\<close> fails (so that no pin is held) and the remap
  call fails, the call is made a second time all the same.
\<close>

theorem unpinned_failure_is_retried:
  "have_mlock refusing_env \<and> sys_mlock refusing_env 0 = - 1 \<and>
   fst (sys_remap_file_pages refusing_env 0 0 0) = - 1 \<and>
   trace (snd (remap_page refusing_env (replicate N_PAGES 0) 0 fresh)) =
     [Mlock 0, RemapFilePages (DataPage 0) 0 0 0, RemapFilePages (DataPage 0) 0 0 0]"
  using zero_less_N_PAGES
  by (simp add: remap_page_trace refusing_env_def ideal_env_def fresh_def)

lemma remap_order_fatal:
  assumes "fst (remap_order e order s) < 0"
  shows "fst (remap_order e order s) = - 1 \<and>
         (\<exists>k pre. k < N_PAGES \<and>
            trace (snd (remap_order e order s)) =
              trace s @ pre @ [RemapFilePages (DataPage k) 0 (order ! k) 0,
                               PrFail ''remap_file_pages failed''] \<and>
            set (remapped_pages pre) \<subseteq> {..k}) \<and>
         pass e order name s = (Break, snd (remap_order e order s))"
proof -
  let ?r = "remap_order_loop e order 0 s"
  have neg: "fst ?r < 0" using assms by (simp only: remap_order_def)
  have "fst ?r = 0 \<or> fst ?r = - 1" by (rule remap_order_loop_ret)
  with neg have r: "fst ?r = - 1" by simp
  from remap_order_loop_events[of e order 0 s] obtain evs where
    tr: "trace (snd ?r) = trace s @ evs" and
    ev: "fst ?r < 0 \<longrightarrow>
            (\<exists>k pre. 0 \<le> k \<and> k < N_PAGES \<and>
               evs = pre @ [RemapFilePages (DataPage k) 0 (order ! k) 0,
                            PrFail ''remap_file_pages failed''] \<and>
               set (remapped_pages evs) = {0..k})"
    by (elim exE conjE) (rule that; assumption)
  from ev neg have "\<exists>k pre. 0 \<le> k \<and> k < N_PAGES \<and>
               evs = pre @ [RemapFilePages (DataPage k) 0 (order ! k) 0,
                            PrFail ''remap_file_pages failed''] \<and>
               set (remapped_pages evs) = {0..k}"
    by (rule mp)
  then obtain k pre where k: "k < N_PAGES" and
    evs: "evs = pre @ [RemapFilePages (DataPage k) 0 (order ! k) 0,
                       PrFail ''remap_file_pages failed'']" and
    pages: "set (remapped_pages evs) = {0..k}"
    by (elim exE conjE) (rule that; assumption)
  have "set (remapped_pages pre) \<subseteq> set (remapped_pages evs)"
    unfolding evs by auto
  with pages have sub: "set (remapped_pages pre) \<subseteq> {..k}" by auto
  have tr': "trace (snd ?r) = trace s @ pre @ [RemapFilePages (DataPage k) 0 (order ! k) 0,
                               PrFail ''remap_file_pages failed'']"
    unfolding tr evs ..
  have ex: "\<exists>k pre. k < N_PAGES \<and>
            trace (snd ?r) =
              trace s @ pre @ [RemapFilePages (DataPage k) 0 (order ! k) 0,
                               PrFail ''remap_file_pages failed''] \<and>
            set (remapped_pages pre) \<subseteq> {..k}"
    using k tr' sub by (intro exI[where x = k] exI[where x = pre] conjI)
  have p: "pass e order name s = (Break, snd (remap_order e order s))"
    using assms by (simp add: pass_def split_beta)
  from r ex p show ?thesis unfolding remap_order_def by (intro conjI)
qed

lemma refusing_env_simps [simp]:
  "have_mlock refusing_env" "sys_mmap_data refusing_env"
  "sys_mlock refusing_env k = - 1"
  "sys_remap_file_pages refusing_env k i pgoff = (- 1, None)"
  by (simp_all add: refusing_env_def ideal_env_def)

lemma ideal_env_simps [simp]:
  "have_mlock ideal_env" "sys_mmap_data ideal_env"
  "sys_mlock ideal_env k = 0"
  "sys_remap_file_pages ideal_env k i pgoff = (0, Some pgoff)"
  "keep_stressing ideal_env k = False"
  "time_now ideal_env k = real k"
  by (simp_all add: ideal_env_def)

lemma never_succeeds_refusing: "never_succeeds refusing_env"
  by (simp add: never_succeeds_def)

lemma conforming_ideal: "conforming ideal_env"
  by (simp add: conforming_def)

lemma remap_page_refusing: "fst (remap_page refusing_env order i s) = - 1"
  by (simp add: remap_page_ret)

lemma iteration_first_pass_fatal:
  assumes "fst (remap_page e (reverse_loop 0 (replicate N_PAGES 0)) 0 s) < 0"
  shows "fst (iteration e s) = Break"
proof -
  let ?o = "reverse_loop 0 (replicate N_PAGES 0)"
  have "fst (remap_order e ?o s) < 0"
    using assms zero_less_N_PAGES by (simp add: remap_order_def remap_order_loop_fail)
  then have "pass e ?o ''reverse'' s = (Break, snd (remap_order e ?o s))"
    by (simp add: pass_def split_beta)
  then show ?thesis by (simp add: iteration_def Let_def)
qed

lemma iteration_all_succeed:
  assumes "\<forall>k i pgoff. fst (sys_remap_file_pages e k i pgoff) = 0"
  shows "fst (iteration e s) = Continue"
proof -
  have p: "\<And>order name s. pass e order name s =
             (Continue, check_order order name (snd (remap_order e order s)))"
    by (simp add: pass_def split_beta remap_order_def remap_order_loop_succeeds[OF assms])
  show ?thesis by (simp add: iteration_def Let_def p split_beta)
qed


lemma stress_remap_metric:
  assumes "sys_mmap_data e" "stress_remap fuel e = Some (rc, s)"
  shows "rc = EXIT_SUCCESS \<and>
         (\<exists>s0. stress_loop fuel e (init_loop 0 fresh) = Some s0 \<and> s = teardown e s0 \<and>
            filter is_metric (trace s) =
              [MetricsSet 0 ''nanosecs per page remap''
                 (if count s0 > 0 then Some (duration s0 / count s0 * 1000000000)
                  else Some 0)])"
proof -
  from assms obtain s0 where s0: "stress_loop fuel e (init_loop 0 fresh) = Some s0"
    and rc: "rc = EXIT_SUCCESS" and s: "s = teardown e s0"
    by (auto simp: stress_remap_def split: option.splits)
  have "filter is_metric (trace s0) = filter is_metric (trace (init_loop 0 fresh))"
    using s0 by (rule stress_loop_metric)
  also have "\<dots> = []" by (simp add: init_loop_fields fresh_def)
  finally have "filter is_metric (trace s) =
              [MetricsSet 0 ''nanosecs per page remap''
                 (if count s0 > 0 then Some (duration s0 / count s0 * 1000000000)
                  else Some 0)]"
    unfolding s by (simp add: teardown_metric)
  with s0 s have "stress_loop fuel e (init_loop 0 fresh) = Some s0 \<and> s = teardown e s0 \<and>
            filter is_metric (trace s) =
              [MetricsSet 0 ''nanosecs per page remap''
                 (if count s0 > 0 then Some (duration s0 / count s0 * 1000000000)
                  else Some 0)]"
    by simp
  then have "\<exists>s0. stress_loop fuel e (init_loop 0 fresh) = Some s0 \<and> s = teardown e s0 \<and>
            filter is_metric (trace s) =
              [MetricsSet 0 ''nanosecs per page remap''
                 (if count s0 > 0 then Some (duration s0 / count s0 * 1000000000)
                  else Some 0)]"
    by (rule exI[where x = s0])
  with rc show ?thesis by (rule conjI)
qed


lemma teardown_zero:
  assumes "count s0 = 0"
  shows "ddiv (duration s0) (count s0) = None \<and>
         filter is_metric (trace (teardown e s0)) =
           filter is_metric (trace s0) @ [MetricsSet 0 ''nanosecs per page remap'' (Some 0)]"
  using assms by (simp add: teardown_metric ddiv_def)

lemma stress_remap_never_succeeds:
  assumes "sys_mmap_data e" "never_succeeds e" "stress_remap fuel e = Some (rc, s)"
  shows "filter is_metric (trace s) = [MetricsSet 0 ''nanosecs per page remap'' (Some 0)]"
proof -
  from stress_remap_metric[OF assms(1,3)] obtain s0 where
    s0: "stress_loop fuel e (init_loop 0 fresh) = Some s0" and
    m: "filter is_metric (trace s) =
              [MetricsSet 0 ''nanosecs per page remap''
                 (if count s0 > 0 then Some (duration s0 / count s0 * 1000000000)
                  else Some 0)]"
    by (elim exE conjE) (rule that; assumption)
  have "count s0 = count (init_loop 0 fresh)"
    using assms(2) s0 by (rule stress_loop_count)
  also have "\<dots> = 0" by (simp add: init_loop_fields fresh_def)
  finally show ?thesis using m by simp
qed

text \<open>
  C10. If no remap call ever returned 0, the metric reported is exactly 0; and whenever
  \<open>count\<close> is 0 at teardown the division (which would not give a number) is not
  performed, and the metric reported is exactly 0.
\<close>

theorem no_success_reports_zero:
  "(sys_mmap_data e \<and> never_succeeds e \<and> stress_remap fuel e = Some (rc, s) \<longrightarrow>
      filter is_metric (trace s) = [MetricsSet 0 ''nanosecs per page remap'' (Some 0)]) \<and>
   (count s0 = 0 \<longrightarrow>
      ddiv (duration s0) (count s0) = None \<and>
      filter is_metric (trace (teardown e s0)) =
        filter is_metric (trace s0) @ [MetricsSet 0 ''nanosecs per page remap'' (Some 0)])"
proof (intro conjI impI)
  assume "sys_mmap_data e \<and> never_succeeds e \<and> stress_remap fuel e = Some (rc, s)"
  then have "sys_mmap_data e" "never_succeeds e" "stress_remap fuel e = Some (rc, s)"
    by simp_all
  then show "filter is_metric (trace s) = [MetricsSet 0 ''nanosecs per page remap'' (Some 0)]"
    by (rule stress_remap_never_succeeds)
next
  assume c: "count s0 = 0"
  from teardown_zero[OF c] show "ddiv (duration s0) (count s0) = None"
    by (rule conjunct1)
  from teardown_zero[OF c, of e] show "filter is_metric (trace (teardown e s0)) =
        filter is_metric (trace s0) @ [MetricsSet 0 ''nanosecs per page remap'' (Some 0)]"
    by (rule conjunct2)
qed

lemma stress_remap_refusing:
  "stress_remap (Suc 0) refusing_env =
     Some (EXIT_SUCCESS, teardown refusing_env (snd (iteration refusing_env (init_loop 0 fresh))))"
proof -
  have "fst (iteration refusing_env (init_loop 0 fresh)) = Break"
    by (rule iteration_first_pass_fatal) (simp add: remap_page_refusing)
  then have "iteration refusing_env (init_loop 0 fresh) =
               (Break, snd (iteration refusing_env (init_loop 0 fresh)))"
    by (cases "iteration refusing_env (init_loop 0 fresh)") simp
  then have "stress_loop (Suc 0) refusing_env (init_loop 0 fresh) =
               Some (snd (iteration refusing_env (init_loop 0 fresh)))"
    by (rule stress_loop_break)
  then show ?thesis by (simp add: stress_remap_def)
qed

text \<open>The hypotheses of C10 hold with a kernel that refuses every call.\<close>

theorem no_success_reports_zero_witness:
  "sys_mmap_data refusing_env \<and> never_succeeds refusing_env \<and>
   stress_remap (Suc 0) refusing_env =
     Some (EXIT_SUCCESS, teardown refusing_env (snd (iteration refusing_env (init_loop 0 fresh)))) \<and>
   filter is_metric
     (trace (teardown refusing_env (snd (iteration refusing_env (init_loop 0 fresh))))) =
     [MetricsSet 0 ''nanosecs per page remap'' (Some 0)] \<and>
   count fresh = 0 \<and>
   ddiv (duration fresh) (count fresh) = None \<and>
   filter is_metric (trace (teardown refusing_env fresh)) =
     [MetricsSet 0 ''nanosecs per page remap'' (Some 0)]"
proof -
  let ?s = "teardown refusing_env (snd (iteration refusing_env (init_loop 0 fresh)))"
  note inst = no_success_reports_zero[where e = refusing_env and fuel = "Suc 0"
      and rc = EXIT_SUCCESS and s = ?s and ?s0.0 = fresh]
  have h: "sys_mmap_data refusing_env \<and> never_succeeds refusing_env \<and>
           stress_remap (Suc 0) refusing_env = Some (EXIT_SUCCESS, ?s)"
    using stress_remap_refusing never_succeeds_refusing by simp
  have z: "count fresh = 0" by (simp add: fresh_def)
  note c1 = inst[THEN conjunct1, THEN mp, OF h]
  note c2 = inst[THEN conjunct2, THEN mp, OF z]
  have "filter is_metric (trace fresh) = []" by (simp add: fresh_def)
  with h z c1 c2 show ?thesis by simp
qed

section \<open>The probes of the user-dispatch stressor\<close>

lemma deliver_fields [simp]:
  "errno (deliver d s) = errno s" "trace (deliver d s) = trace s"
  "n_prctl (deliver d s) = n_prctl s" "n_syscall (deliver d s) = n_syscall s"
  by (simp_all add: deliver_def stress_sigsys_handler_def dispatcher_off_def Let_def
      split: delivery.splits option.splits)

lemma test_case_1_ok:
  assumes "fst (sys_prctl e (n_prctl s)) = 0"
  shows "fst (test_case_1 e s) = Proceed \<and>
         trace (snd (test_case_1 e s)) =
           trace s @
           [Prctl True 0 0, Syscall (USR_SYSCALL e) SYSCALL_DISPATCH_FILTER_ALLOW] @
           (if (case set_errno (sys_syscall e (n_syscall s) SYSCALL_DISPATCH_FILTER_ALLOW
                                  (USR_SYSCALL e)) of
                  None \<Rightarrow> 0 | Some v \<Rightarrow> v) \<noteq> ENOSYS
            then [PrFail ''didn't get ENOSYS on user syscall''] else [])"
  using assms
  by (simp add: test_case_1_def prctl_def syscall_def dispatcher_off_def emit_def pr_fail_def
      Let_def split_beta split: option.splits)

lemma test_case_2_trace:
  "\<exists>rest. trace (snd (test_case_2 e s)) =
      trace s @ [Syscall (USR_SYSCALL e) SYSCALL_DISPATCH_FILTER_BLOCK] @ rest"
  by (simp add: test_case_2_def prctl_def syscall_def dispatcher_off_def dispatcher_on_def
      emit_def pr_fail_def pr_inf_skip_def Let_def split_beta)

lemma test_case_2_nosys:
  assumes "int_of_long (retval (sys_syscall e (n_syscall s) SYSCALL_DISPATCH_FILTER_BLOCK
                                  (USR_SYSCALL e))) \<noteq> USR_SYSCALL e"
    and "(case set_errno (sys_syscall e (n_syscall s) SYSCALL_DISPATCH_FILTER_BLOCK
                            (USR_SYSCALL e)) of
            None \<Rightarrow> errno s | Some v \<Rightarrow> v) = ENOSYS"
  shows "fst (test_case_2 e s) = GotoErr \<and>
         trace (snd (test_case_2 e s)) =
           trace s @ [Syscall (USR_SYSCALL e) SYSCALL_DISPATCH_FILTER_BLOCK,
                      PrInfSkip ''got ENOSYS for usersyscall, skipping stressor'']"
  using assms
  by (simp add: test_case_2_def syscall_def dispatcher_off_def dispatcher_on_def
      emit_def pr_inf_skip_def Let_def split_beta split: option.splits)

lemma x86_64_syscall0_trace:
  "trace (snd (x86_64_syscall0 e nr s)) = trace s @ [RawSyscall nr (selector s)]"
  by (simp add: x86_64_syscall0_def emit_def Let_def split_beta)

lemma syscall_trace:
  "trace (snd (syscall e nr s)) = trace s @ [Syscall nr (selector s)]"
  by (simp add: syscall_def emit_def Let_def split_beta)

lemma prctl_trace:
  "trace (snd (prctl e on offset len s)) = trace s @ [Prctl on offset len]"
  by (simp add: prctl_def emit_def split_beta)

lemma test_case_3_trace:
  "\<exists>rest. trace (test_case_3 e b en s) = trace s @ rest"
  by (simp add: test_case_3_def Let_def split_beta x86_64_syscall0_trace syscall_trace
      prctl_trace dispatcher_on_def dispatcher_off_def pr_fail_def pr_inf_def emit_def)

lemma iteration_u_after_test_case_1:
  assumes "fst (test_case_1 e s) = Proceed"
  shows "\<exists>rest. trace (snd (iteration_u e libc_ok b en s)) =
           trace (snd (test_case_1 e s)) @
           [Syscall (USR_SYSCALL e) SYSCALL_DISPATCH_FILTER_BLOCK] @ rest"
proof -
  let ?s1 = "snd (test_case_1 e s)"
  let ?s2 = "snd (test_case_2 e ?s1)"
  obtain r2 where r2: "trace ?s2 =
      trace ?s1 @ [Syscall (USR_SYSCALL e) SYSCALL_DISPATCH_FILTER_BLOCK] @ r2"
    using test_case_2_trace by blast
  obtain r3 where r3: "trace (test_case_3 e b en ?s2) = trace ?s2 @ r3"
    using test_case_3_trace by blast
  have "\<exists>r. trace (snd (iteration_u e libc_ok b en s)) = trace ?s2 @ r"
    using assms r3
    by (simp add: iteration_u_def split_beta inc_counter_def emit_def)
  then obtain r where "trace (snd (iteration_u e libc_ok b en s)) = trace ?s2 @ r" ..
  then have "trace (snd (iteration_u e libc_ok b en s)) =
           trace ?s1 @ [Syscall (USR_SYSCALL e) SYSCALL_DISPATCH_FILTER_BLOCK] @ (r2 @ r)"
    using r2 by simp
  then show ?thesis by (rule exI[where x = "r2 @ r"])
qed

text \<open>
  C7. The probe with the dispatcher disabled: once \<^verbatim>\<open>prctl\<close> has switched user
  dispatch on, the reserved system call is issued with the selector at Allow, after errno
  was cleared. A verification failure is reported exactly when errno is then anything but
  \<^verbatim>\<open>ENOSYS\<close> (what the system call layer reports for a number that is not
  implemented), and either way the loop body goes on: its next call is the reserved
  system call of test case 2, with the selector at Block.
\<close>

theorem dispatch_disabled_probe:
  "fst (sys_prctl e (n_prctl s)) = 0 \<longrightarrow>
     fst (test_case_1 e s) = Proceed \<and>
     trace (snd (test_case_1 e s)) =
       trace s @
       [Prctl True 0 0, Syscall (USR_SYSCALL e) SYSCALL_DISPATCH_FILTER_ALLOW] @
       (if (case set_errno (sys_syscall e (n_syscall s) SYSCALL_DISPATCH_FILTER_ALLOW
                              (USR_SYSCALL e)) of
              None \<Rightarrow> 0 | Some v \<Rightarrow> v) \<noteq> ENOSYS
        then [PrFail ''didn't get ENOSYS on user syscall''] else []) \<and>
     (\<exists>rest. trace (snd (iteration_u e libc_ok b en s)) =
        trace (snd (test_case_1 e s)) @
        [Syscall (USR_SYSCALL e) SYSCALL_DISPATCH_FILTER_BLOCK] @ rest)"
proof
  assume a: "fst (sys_prctl e (n_prctl s)) = 0"
  note t1 = test_case_1_ok[OF a]
  from t1[THEN conjunct1] have "\<exists>rest. trace (snd (iteration_u e libc_ok b en s)) =
        trace (snd (test_case_1 e s)) @
        [Syscall (USR_SYSCALL e) SYSCALL_DISPATCH_FILTER_BLOCK] @ rest"
    by (rule iteration_u_after_test_case_1)
  with t1 show "fst (test_case_1 e s) = Proceed \<and>
     trace (snd (test_case_1 e s)) =
       trace s @
       [Prctl True 0 0, Syscall (USR_SYSCALL e) SYSCALL_DISPATCH_FILTER_ALLOW] @
       (if (case set_errno (sys_syscall e (n_syscall s) SYSCALL_DISPATCH_FILTER_ALLOW
                              (USR_SYSCALL e)) of
              None \<Rightarrow> 0 | Some v \<Rightarrow> v) \<noteq> ENOSYS
        then [PrFail ''didn't get ENOSYS on user syscall''] else []) \<and>
     (\<exists>rest. trace (snd (iteration_u e libc_ok b en s)) =
        trace (snd (test_case_1 e s)) @
        [Syscall (USR_SYSCALL e) SYSCALL_DISPATCH_FILTER_BLOCK] @ rest)"
    by (simp only: simp_thms)
qed

lemma usersyscall_loop_goto_err:
  assumes "fst (test_case_1 e s0) = Proceed"
    and "fst (test_case_2 e (snd (test_case_1 e s0))) = GotoErr"
  shows "usersyscall_loop (Suc fuel) e libc_ok b en s0 =
           Some (EXIT_NOT_IMPLEMENTED, snd (test_case_2 e (snd (test_case_1 e s0))))"
  using assms by (simp add: iteration_u_def split_beta)

text \<open>
  C6. The probe with the dispatcher enabled: if the value the reserved system call
  returns is not the reserved number and errno is \<^verbatim>\<open>ENOSYS\<close>, test case 2 reports
  an informational skip and no failure, and jumps to \<^verbatim>\<open>err\<close>; the loop ends there
  and the stressor returns \<^verbatim>\<open>EXIT_NOT_IMPLEMENTED\<close>.
\<close>

theorem dispatch_enabled_enosys_skips:
  "(int_of_long (retval (sys_syscall e (n_syscall s) SYSCALL_DISPATCH_FILTER_BLOCK
                           (USR_SYSCALL e))) \<noteq> USR_SYSCALL e \<and>
    (case set_errno (sys_syscall e (n_syscall s) SYSCALL_DISPATCH_FILTER_BLOCK
                       (USR_SYSCALL e)) of
       None \<Rightarrow> errno s | Some v \<Rightarrow> v) = ENOSYS \<longrightarrow>
      fst (test_case_2 e s) = GotoErr \<and>
      trace (snd (test_case_2 e s)) =
        trace s @ [Syscall (USR_SYSCALL e) SYSCALL_DISPATCH_FILTER_BLOCK,
                   PrInfSkip ''got ENOSYS for usersyscall, skipping stressor'']) \<and>
   (fst (test_case_1 e s0) = Proceed \<and>
    fst (test_case_2 e (snd (test_case_1 e s0))) = GotoErr \<longrightarrow>
      usersyscall_loop (Suc fuel) e libc_ok b en s0 =
        Some (EXIT_NOT_IMPLEMENTED, snd (test_case_2 e (snd (test_case_1 e s0))))) \<and>
   (\<not> sys_sigaction e < 0 \<and>
    fst (test_case_1 e (emit Sigaction s0)) = Proceed \<and>
    fst (test_case_2 e (snd (test_case_1 e (emit Sigaction s0)))) = GotoErr \<longrightarrow>
      stress_usersyscall (Suc fuel) e s0 =
        Some (EXIT_NOT_IMPLEMENTED,
              snd (test_case_2 e (snd (test_case_1 e (emit Sigaction s0))))))"
proof (intro conjI impI)
  assume "int_of_long (retval (sys_syscall e (n_syscall s) SYSCALL_DISPATCH_FILTER_BLOCK
                           (USR_SYSCALL e))) \<noteq> USR_SYSCALL e \<and>
    (case set_errno (sys_syscall e (n_syscall s) SYSCALL_DISPATCH_FILTER_BLOCK
                       (USR_SYSCALL e)) of
       None \<Rightarrow> errno s | Some v \<Rightarrow> v) = ENOSYS"
  then have a: "int_of_long (retval (sys_syscall e (n_syscall s) SYSCALL_DISPATCH_FILTER_BLOCK
                           (USR_SYSCALL e))) \<noteq> USR_SYSCALL e"
    and b: "(case set_errno (sys_syscall e (n_syscall s) SYSCALL_DISPATCH_FILTER_BLOCK
                       (USR_SYSCALL e)) of
       None \<Rightarrow> errno s | Some v \<Rightarrow> v) = ENOSYS"
    by (rule conjunct1, rule conjunct2)
  note t2 = test_case_2_nosys[OF a b]
  from t2 show "fst (test_case_2 e s) = GotoErr" by (rule conjunct1)
  from t2 show "trace (snd (test_case_2 e s)) =
        trace s @ [Syscall (USR_SYSCALL e) SYSCALL_DISPATCH_FILTER_BLOCK,
                   PrInfSkip ''got ENOSYS for usersyscall, skipping stressor'']"
    by (rule conjunct2)
next
  assume "fst (test_case_1 e s0) = Proceed \<and>
    fst (test_case_2 e (snd (test_case_1 e s0))) = GotoErr"
  then show "usersyscall_loop (Suc fuel) e libc_ok b en s0 =
        Some (EXIT_NOT_IMPLEMENTED, snd (test_case_2 e (snd (test_case_1 e s0))))"
    by (simp only: usersyscall_loop_goto_err)
next
  assume "\<not> sys_sigaction e < 0 \<and>
    fst (test_case_1 e (emit Sigaction s0)) = Proceed \<and>
    fst (test_case_2 e (snd (test_case_1 e (emit Sigaction s0)))) = GotoErr"
  then show "stress_usersyscall (Suc fuel) e s0 =
        Some (EXIT_NOT_IMPLEMENTED,
              snd (test_case_2 e (snd (test_case_1 e (emit Sigaction s0)))))"
    by (simp add: stress_usersyscall_def split_beta Let_def usersyscall_loop_goto_err
        del: usersyscall_loop.simps)
qed

lemma nosys_uenv_simps [simp]:
  "sys_prctl nosys_uenv k = (0, None)"
  "sys_syscall nosys_uenv k sel nr = \<lparr>retval = - 1, set_errno = Some ENOSYS, raised = NoSignal\<rparr>"
  "USR_SYSCALL nosys_uenv = 57344"
  "sys_sigaction nosys_uenv = 0"
  by (simp_all add: nosys_uenv_def)

lemma eperm_uenv_simps [simp]:
  "sys_prctl eperm_uenv k = (0, None)"
  "sys_syscall eperm_uenv k sel nr = \<lparr>retval = - 1, set_errno = Some 1, raised = NoSignal\<rparr>"
  "USR_SYSCALL eperm_uenv = 57344"
  by (simp_all add: eperm_uenv_def nosys_uenv_def)

lemma int_of_long_minus_1: "int_of_long (- 1) = - 1"
  by (simp add: int_of_long_def)

text \<open>The hypothesis of C7 holds with a kernel that answers every system call with the
  errno \<^verbatim>\<open>EPERM\<close>: the failure is reported and the loop body goes on.\<close>

theorem dispatch_disabled_probe_witness:
  "fst (sys_prctl eperm_uenv (n_prctl entry)) = 0 \<and>
   fst (test_case_1 eperm_uenv entry) = Proceed \<and>
   trace (snd (test_case_1 eperm_uenv entry)) =
     [Prctl True 0 0, Syscall 57344 SYSCALL_DISPATCH_FILTER_ALLOW,
      PrFail ''didn't get ENOSYS on user syscall''] \<and>
   (\<exists>rest. trace (snd (iteration_u eperm_uenv False 0 0 entry)) =
      trace (snd (test_case_1 eperm_uenv entry)) @
      [Syscall (USR_SYSCALL eperm_uenv) SYSCALL_DISPATCH_FILTER_BLOCK] @ rest)"
proof -
  note inst = dispatch_disabled_probe[where e = eperm_uenv and s = entry
      and libc_ok = False and b = 0 and en = 0]
  have h: "fst (sys_prctl eperm_uenv (n_prctl entry)) = 0" by simp
  note c = inst[THEN mp, OF h]
  have "trace (snd (test_case_1 eperm_uenv entry)) =
     [Prctl True 0 0, Syscall 57344 SYSCALL_DISPATCH_FILTER_ALLOW,
      PrFail ''didn't get ENOSYS on user syscall'']"
    using c[THEN conjunct2, THEN conjunct1] by (simp add: entry_def ENOSYS_def)
  with h c[THEN conjunct1] c[THEN conjunct2, THEN conjunct2] show ?thesis
    by (intro conjI)
qed

text \<open>The hypotheses of C6 hold with a kernel that answers every system call with
  \<^verbatim>\<open>ENOSYS\<close>.\<close>

theorem dispatch_enabled_enosys_skips_witness:
  "int_of_long (retval (sys_syscall nosys_uenv (n_syscall entry) SYSCALL_DISPATCH_FILTER_BLOCK
                           (USR_SYSCALL nosys_uenv))) \<noteq> USR_SYSCALL nosys_uenv \<and>
   fst (test_case_2 nosys_uenv entry) = GotoErr \<and>
   trace (snd (test_case_2 nosys_uenv entry)) =
     [Syscall 57344 SYSCALL_DISPATCH_FILTER_BLOCK,
      PrInfSkip ''got ENOSYS for usersyscall, skipping stressor''] \<and>
   fst (test_case_1 nosys_uenv entry) = Proceed \<and>
   fst (test_case_2 nosys_uenv (snd (test_case_1 nosys_uenv entry))) = GotoErr \<and>
   usersyscall_loop (Suc 0) nosys_uenv False 0 0 entry =
     Some (EXIT_NOT_IMPLEMENTED, snd (test_case_2 nosys_uenv (snd (test_case_1 nosys_uenv entry)))) \<and>
   \<not> sys_sigaction nosys_uenv < 0 \<and>
   stress_usersyscall (Suc 0) nosys_uenv entry =
     Some (EXIT_NOT_IMPLEMENTED,
           snd (test_case_2 nosys_uenv (snd (test_case_1 nosys_uenv (emit Sigaction entry)))))"
proof -
  note inst = dispatch_enabled_enosys_skips[where e = nosys_uenv and s = entry
      and ?s0.0 = entry and fuel = 0 and libc_ok = False and b = 0 and en = 0]
  have r: "\<And>s. int_of_long (retval (sys_syscall nosys_uenv (n_syscall s)
             SYSCALL_DISPATCH_FILTER_BLOCK (USR_SYSCALL nosys_uenv))) \<noteq> USR_SYSCALL nosys_uenv"
    by (simp add: int_of_long_minus_1)
  have er: "\<And>s. (case set_errno (sys_syscall nosys_uenv (n_syscall s)
              SYSCALL_DISPATCH_FILTER_BLOCK (USR_SYSCALL nosys_uenv)) of
              None \<Rightarrow> errno s | Some v \<Rightarrow> v) = ENOSYS"
    by simp
  have h1: "int_of_long (retval (sys_syscall nosys_uenv (n_syscall entry)
              SYSCALL_DISPATCH_FILTER_BLOCK (USR_SYSCALL nosys_uenv))) \<noteq> USR_SYSCALL nosys_uenv \<and>
            (case set_errno (sys_syscall nosys_uenv (n_syscall entry)
              SYSCALL_DISPATCH_FILTER_BLOCK (USR_SYSCALL nosys_uenv)) of
              None \<Rightarrow> errno entry | Some v \<Rightarrow> v) = ENOSYS"
    using r[of entry] er[of entry] by (rule conjI)
  have p: "\<And>s. fst (test_case_1 nosys_uenv s) = Proceed"
    by (rule test_case_1_ok[THEN conjunct1]) simp
  have g: "\<And>s. fst (test_case_2 nosys_uenv s) = GotoErr"
    by (rule test_case_2_nosys[THEN conjunct1, OF r er])
  have h2: "fst (test_case_1 nosys_uenv entry) = Proceed \<and>
            fst (test_case_2 nosys_uenv (snd (test_case_1 nosys_uenv entry))) = GotoErr"
    using p g by (rule conjI)
  have h3: "\<not> sys_sigaction nosys_uenv < 0 \<and>
    fst (test_case_1 nosys_uenv (emit Sigaction entry)) = Proceed \<and>
    fst (test_case_2 nosys_uenv (snd (test_case_1 nosys_uenv (emit Sigaction entry)))) = GotoErr"
    using p g by simp
  note c1 = inst[THEN conjunct1, THEN mp, OF h1]
  note c2 = inst[THEN conjunct2, THEN conjunct1, THEN mp, OF h2]
  note c3 = inst[THEN conjunct2, THEN conjunct2, THEN mp, OF h3]
  have t: "trace (snd (test_case_2 nosys_uenv entry)) =
     [Syscall 57344 SYSCALL_DISPATCH_FILTER_BLOCK,
      PrInfSkip ''got ENOSYS for usersyscall, skipping stressor'']"
    using c1[THEN conjunct2] by (simp add: entry_def)
  from h1[THEN conjunct1] c1[THEN conjunct1] t h2 c2 h3[THEN conjunct1] c3
  show ?thesis by simp
qed

lemma strstr_iff: "strstr hay needle \<longleftrightarrow> (\<exists>pre post. hay = pre @ needle @ post)"
proof (induction hay)
  case Nil
  then show ?case by auto
next
  case (Cons c cs)
  have "(\<exists>pre post. c # cs = pre @ needle @ post) \<longleftrightarrow>
        (\<exists>post. c # cs = needle @ post) \<or> (\<exists>pre post. cs = pre @ needle @ post)"
  proof
    assume "\<exists>pre post. c # cs = pre @ needle @ post"
    then obtain pre post where p: "c # cs = pre @ needle @ post" by blast
    show "(\<exists>post. c # cs = needle @ post) \<or> (\<exists>pre post. cs = pre @ needle @ post)"
    proof (cases pre)
      case Nil
      with p show ?thesis by auto
    next
      case (Cons a pre')
      with p have "cs = pre' @ needle @ post" by simp
      then show ?thesis by blast
    qed
  next
    assume "(\<exists>post. c # cs = needle @ post) \<or> (\<exists>pre post. cs = pre @ needle @ post)"
    then show "\<exists>pre post. c # cs = pre @ needle @ post"
    proof
      assume "\<exists>post. c # cs = needle @ post"
      then obtain post where "c # cs = [] @ needle @ post" by auto
      then show ?thesis by blast
    next
      assume "\<exists>pre post. cs = pre @ needle @ post"
      then obtain pre post where "c # cs = (c # pre) @ needle @ post" by auto
      then show ?thesis by blast
    qed
  qed
  moreover have "take (length needle) (c # cs) = needle \<longleftrightarrow> (\<exists>post. c # cs = needle @ post)"
  proof
    assume "take (length needle) (c # cs) = needle"
    then have "c # cs = needle @ drop (length needle) (c # cs)"
      by (metis append_take_drop_id)
    then show "\<exists>post. c # cs = needle @ post" ..
  next
    assume "\<exists>post. c # cs = needle @ post"
    then show "take (length needle) (c # cs) = needle" by auto
  qed
  ultimately show ?case using Cons.IH by simp
qed

lemma scan_maps_fold:
  "scan_maps ls (b, e) =
     (fold min (map map_begin (filter is_libc_text ls)) b,
      fold max (map map_end (filter is_libc_text ls)) e)"
proof (induction ls arbitrary: b e)
  case Nil
  then show ?case by simp
next
  case (Cons l ls)
  have mn: "(if b > map_begin l then map_begin l else b) = min (map_begin l) b"
    by (auto simp: min_def)
  have mx: "(if e < map_end l then map_end l else e) = max (map_end l) e"
    by (auto simp: max_def)
  show ?case
    by (simp add: Cons.IH is_libc_text_def strncmp4_eq_def mn mx)
qed

lemma fold_min_Min: "fold min xs (b::64 word) = Min (set (b # xs))"
  by (rule Min.set_eq_fold[symmetric])

lemma fold_max_Max: "fold max xs (e::64 word) = Max (set (e # xs))"
  by (rule Max.set_eq_fold[symmetric])

lemma Min_insert_top:
  assumes "finite A" "A \<noteq> {}"
  shows "Min (insert (- 1 :: 64 word) A) = Min A"
proof -
  have "Min (insert (- 1) A) = min (- 1) (Min A)" using assms by (rule Min_insert)
  also have "\<dots> = Min A" by (rule min.absorb2) simp
  finally show ?thesis .
qed

lemma Max_insert_bot:
  assumes "finite A" "A \<noteq> {}"
  shows "Max (insert (0 :: 64 word) A) = Max A"
proof -
  have "Max (insert 0 A) = max 0 (Max A)" using assms by (rule Max_insert)
  also have "\<dots> = Max A" by (rule max.absorb2) simp
  finally show ?thesis .
qed

lemma libc_mapping_found:
  assumes ne: "filter is_libc_text ls \<noteq> []"
    and wf: "\<forall>l\<in>set ls. is_libc_text l \<longrightarrow> map_begin l < map_end l"
  shows "stress_sigsys_libc_mapping (Some ls) =
           (0, Min (map_begin ` set (filter is_libc_text ls)),
               Max (map_end ` set (filter is_libc_text ls)))"
proof -
  let ?M = "set (filter is_libc_text ls)"
  have fin: "finite ?M" by simp
  from ne have nonempty: "?M \<noteq> {}" by (simp only: set_empty not_False_eq_True)
  have b: "fold min (map map_begin (filter is_libc_text ls)) (- 1) = Min (map_begin ` ?M)"
    using fin nonempty by (simp add: fold_min_Min Min_insert_top)
  have e: "fold max (map map_end (filter is_libc_text ls)) 0 = Max (map_end ` ?M)"
    using fin nonempty by (simp add: fold_max_Max Max_insert_bot)
  have "Min (map_begin ` ?M) \<in> map_begin ` ?M"
    using fin nonempty by (intro Min_in) auto
  then obtain l where l: "l \<in> ?M" "Min (map_begin ` ?M) = map_begin l" by auto
  with wf have "map_begin l < map_end l" by auto
  then have "map_begin l \<noteq> - 1"
    by (metis word_order.extremum_strict)
  with l have b1: "Min (map_begin ` ?M) \<noteq> - 1" by simp
  obtain l' where l': "l' \<in> ?M" using nonempty by auto
  with wf have "map_begin l' < map_end l'" by auto
  then have "0 < map_end l'" using le_less_trans[of 0 "map_begin l'" "map_end l'"] by simp
  moreover have "map_end l' \<le> Max (map_end ` ?M)" using fin l' by (intro Max_ge) auto
  ultimately have e1: "Max (map_end ` ?M) \<noteq> 0" by auto
  show ?thesis
    using b1 e1 by (simp add: stress_sigsys_libc_mapping_def scan_maps_fold b e)
qed

lemma libc_mapping_none:
  assumes "filter is_libc_text ls = []"
  shows "stress_sigsys_libc_mapping (Some ls) = (- 1, 0, 0)"
  using assms by (simp add: stress_sigsys_libc_mapping_def scan_maps_fold)

text \<open>
  C8. The scan fails, with begin and end 0, when the maps file cannot be opened and when no
  line describes the text of the C library: a line of which all eight fields were read,
  with permissions r-xp and a path that contains .so and one of /libc- and /libc.so. When
  there are such lines, each a region that ends after it begins, the scan succeeds
  with the lowest start as begin and the highest end as end. \<^verbatim>\<open>strstr\<close> finds the
  needle exactly when the haystack contains it.
\<close>

theorem libc_mapping_bounds:
  "stress_sigsys_libc_mapping None = (- 1, 0, 0) \<and>
   (filter is_libc_text ls = [] \<longrightarrow> stress_sigsys_libc_mapping (Some ls) = (- 1, 0, 0)) \<and>
   (filter is_libc_text ls \<noteq> [] \<and>
    (\<forall>l\<in>set ls. is_libc_text l \<longrightarrow> map_begin l < map_end l) \<longrightarrow>
      stress_sigsys_libc_mapping (Some ls) =
        (0, Min (map_begin ` set (filter is_libc_text ls)),
            Max (map_end ` set (filter is_libc_text ls)))) \<and>
   (strstr hay needle \<longleftrightarrow> (\<exists>pre post. hay = pre @ needle @ post))"
proof (intro conjI impI)
  show "stress_sigsys_libc_mapping None = (- 1, 0, 0)"
    by (simp add: stress_sigsys_libc_mapping_def)
next
  assume "filter is_libc_text ls = []"
  then show "stress_sigsys_libc_mapping (Some ls) = (- 1, 0, 0)" by (rule libc_mapping_none)
next
  assume "filter is_libc_text ls \<noteq> [] \<and>
    (\<forall>l\<in>set ls. is_libc_text l \<longrightarrow> map_begin l < map_end l)"
  then show "stress_sigsys_libc_mapping (Some ls) =
        (0, Min (map_begin ` set (filter is_libc_text ls)),
            Max (map_end ` set (filter is_libc_text ls)))"
    by (simp add: libc_mapping_found)
next
  show "strstr hay needle \<longleftrightarrow> (\<exists>pre post. hay = pre @ needle @ post)"
    by (rule strstr_iff)
qed

lemma libc_lines_sample:
  "filter is_libc_text sample_maps =
     [\<lparr>n_conv = 8, map_begin = 0x7f0000028000, map_end = 0x7f00001bd000, perm = ''r-xp'',
        libc_path = ''/lib/libc.so.6''\<rparr>,
      \<lparr>n_conv = 8, map_begin = 0x7f0000001000, map_end = 0x7f0000003000, perm = ''r-xp'',
        libc_path = ''/lib/libc-2.31.so''\<rparr>]"
  by (simp add: sample_maps_def is_libc_text_def)

text \<open>The hypotheses of C8 hold for a file without lines and for a file that maps the C
  library twice.\<close>

theorem libc_mapping_bounds_witness:
  "filter is_libc_text [] = [] \<and>
   stress_sigsys_libc_mapping (Some []) = (- 1, 0, 0) \<and>
   filter is_libc_text sample_maps \<noteq> [] \<and>
   stress_sigsys_libc_mapping (Some sample_maps) = (0, 0x7f0000001000, 0x7f00001bd000)"
proof -
  note empty = libc_mapping_bounds[where ls = "[]", THEN conjunct2, THEN conjunct1, THEN mp]
  note found = libc_mapping_bounds[where ls = sample_maps, THEN conjunct2, THEN conjunct2,
      THEN conjunct1, THEN mp]
  have h1: "filter is_libc_text [] = []" by simp
  have h2: "filter is_libc_text sample_maps \<noteq> [] \<and>
    (\<forall>l\<in>set sample_maps. is_libc_text l \<longrightarrow> map_begin l < map_end l)"
    by (simp add: libc_lines_sample) (simp add: sample_maps_def)
  have "stress_sigsys_libc_mapping (Some sample_maps) = (0, 0x7f0000001000, 0x7f00001bd000)"
    using found[OF h2] by (simp add: libc_lines_sample)
  with h1 empty[OF h1] h2[THEN conjunct1] show ?thesis by simp
qed

section \<open>The shuffle\<close>

lemma shuffle_loop_cong:
  assumes "\<forall>k. i \<le> k \<and> k < N_PAGES \<longrightarrow> rnd k = rnd' k"
  shows "shuffle_loop rnd i order = shuffle_loop rnd' i order"
  using assms
proof (induction "N_PAGES - i" arbitrary: i order)
  case 0
  then show ?case by (simp add: shuffle_loop_done)
next
  case (Suc n)
  then have i: "i < N_PAGES" by simp
  from Suc(2) have n: "n = N_PAGES - Suc i" by simp
  have r: "rnd i = rnd' i" using Suc(3) i by simp
  have "\<forall>k. Suc i \<le> k \<and> k < N_PAGES \<longrightarrow> rnd k = rnd' k" using Suc(3) by simp
  from Suc(1)[OF n this] show ?case
    by (simp add: shuffle_loop_step[OF i] r)
qed

lemma shuffled_eq:
  "shuffled js = shuffle_loop (\<lambda>i. js ! i) 0 [0..<N_PAGES]"
  by (simp add: shuffled_def forward_loop_upt)

lemma random_order_shuffled:
  assumes "length order = N_PAGES"
  shows "fst (random_order e order s) =
           shuffled (map (\<lambda>i. mwc32modn e (n_rand s + i)) [0..<N_PAGES])"
proof -
  have "shuffle_loop (\<lambda>i. mwc32modn e (n_rand s + i)) 0 [0..<N_PAGES] =
        shuffle_loop (\<lambda>i. map (\<lambda>i. mwc32modn e (n_rand s + i)) [0..<N_PAGES] ! i) 0 [0..<N_PAGES]"
    by (rule shuffle_loop_cong) simp
  then show ?thesis using assms by (simp add: random_order_def shuffled_eq forward_loop_upt)
qed

lemma is_permutation_length: "is_permutation p \<Longrightarrow> length p = N_PAGES"
  unfolding is_permutation_def using distinct_card[of p] by simp

lemma shuffled_permutation:
  assumes "js \<in> draw_sequences"
  shows "is_permutation (shuffled js)"
proof -
  have "\<forall>i<N_PAGES. js ! i < N_PAGES"
    using assms by (auto simp: draw_sequences_def subset_iff)
  then show ?thesis unfolding shuffled_eq by (rule is_permutation_shuffle)
qed

lemma swap_take:
  assumes "i \<le> j" "j < length order" "take i order = take i p" "order ! j = p ! i"
    "i < length p"
  shows "take (Suc i) (order[i := order ! j, j := order ! i]) = take (Suc i) p"
proof (rule nth_equalityI)
  show "length (take (Suc i) (order[i := order ! j, j := order ! i])) = length (take (Suc i) p)"
    using assms by simp
next
  fix k
  assume "k < length (take (Suc i) (order[i := order ! j, j := order ! i]))"
  then have k: "k \<le> i" by simp
  show "take (Suc i) (order[i := order ! j, j := order ! i]) ! k = take (Suc i) p ! k"
  proof (cases "k = i")
    case True
    with assms show ?thesis by (cases "i = j") (simp_all add: nth_list_update)
  next
    case False
    with k have lt: "k < i" by simp
    have "order ! k = take i order ! k" using lt by simp
    also have "\<dots> = p ! k" using lt assms(3) by simp
    finally show ?thesis using lt assms(1,2) by (simp add: nth_list_update)
  qed
qed

lemma shuffle_reach:
  assumes p: "is_permutation p"
  shows "i \<le> N_PAGES \<Longrightarrow> length order = N_PAGES \<Longrightarrow> distinct order \<Longrightarrow>
         set order = {..<N_PAGES} \<Longrightarrow> take i order = take i p \<Longrightarrow>
         \<exists>rnd. (\<forall>k<N_PAGES. rnd k < N_PAGES) \<and> shuffle_loop rnd i order = p"
proof (induction "N_PAGES - i" arbitrary: i order)
  case 0
  then have "i = N_PAGES" by simp
  with 0 is_permutation_length[OF p] have "order = p" by simp
  moreover have "shuffle_loop (\<lambda>k. 0) i order = order"
    using \<open>i = N_PAGES\<close> by (simp add: shuffle_loop_done)
  ultimately have "(\<forall>k<N_PAGES. (\<lambda>k. 0::nat) k < N_PAGES) \<and> shuffle_loop (\<lambda>k. 0) i order = p"
    by simp
  then show ?case by (rule exI[where x = "\<lambda>k. 0"])
next
  case (Suc n)
  then have i: "i < N_PAGES" by simp
  from Suc(2) have n: "n = N_PAGES - Suc i" by simp
  have lp: "length p = N_PAGES" using p by (rule is_permutation_length)
  have dp: "distinct p" and sp: "set p = {..<N_PAGES}"
    using p by (simp_all add: is_permutation_def)
  have "p ! i \<in> set order" using i lp sp Suc(6) by (metis nth_mem)
  then obtain j where j: "j < length order" "order ! j = p ! i"
    by (auto simp: in_set_conv_nth)
  have ij: "i \<le> j"
  proof (rule ccontr)
    assume "\<not> i \<le> j"
    then have lt: "j < i" by simp
    have "order ! j = take i order ! j" using lt by simp
    also have "\<dots> = p ! j" using lt Suc(7) by simp
    finally have "p ! j = p ! i" using j(2) by simp
    with dp lt i lp show False by (simp add: nth_eq_iff_index_eq)
  qed
  let ?o = "order[i := order ! j, j := order ! i]"
  have io: "i < length order" using i Suc(4) by simp
  have 1: "Suc i \<le> N_PAGES" using i by simp
  have 2: "length ?o = N_PAGES" using Suc(4) by simp
  have 3: "distinct ?o" using Suc(5) io j(1) by (simp only: distinct_swap)
  have 4: "set ?o = {..<N_PAGES}" using Suc(6) io j(1) by (simp only: set_swap)
  have 5: "take (Suc i) ?o = take (Suc i) p"
    using ij j(1) Suc(7) j(2) by (rule swap_take) (simp add: lp i)
  from Suc(1)[OF n 1 2 3 4 5] obtain rnd where
    rnd: "\<forall>k<N_PAGES. rnd k < N_PAGES" "shuffle_loop rnd (Suc i) ?o = p"
    by blast
  let ?r = "rnd(i := j)"
  have "shuffle_loop ?r i order = shuffle_loop ?r (Suc i) ?o"
    using shuffle_loop_step[OF i, of ?r order] by simp
  also have "\<dots> = shuffle_loop rnd (Suc i) ?o"
    by (rule shuffle_loop_cong) simp
  finally have "shuffle_loop ?r i order = p" using rnd(2) by simp
  moreover have "\<forall>k<N_PAGES. ?r k < N_PAGES" using rnd(1) j(1) Suc(4) by simp
  ultimately have "(\<forall>k<N_PAGES. ?r k < N_PAGES) \<and> shuffle_loop ?r i order = p" by simp
  then show ?case by (rule exI[where x = ?r])
qed

lemma shuffled_onto:
  assumes "is_permutation p"
  shows "\<exists>js\<in>draw_sequences. shuffled js = p"
proof -
  have "\<exists>rnd. (\<forall>k<N_PAGES. rnd k < N_PAGES) \<and> shuffle_loop rnd 0 [0..<N_PAGES] = p"
    using assms by (rule shuffle_reach) (simp_all add: atLeast0LessThan)
  then obtain rnd where rnd: "\<forall>k<N_PAGES. rnd k < N_PAGES"
    "shuffle_loop rnd 0 [0..<N_PAGES] = p" by blast
  let ?js = "map rnd [0..<N_PAGES]"
  have "?js \<in> draw_sequences" using rnd(1) by (auto simp: draw_sequences_def)
  moreover have "shuffle_loop (\<lambda>i. ?js ! i) 0 [0..<N_PAGES] = shuffle_loop rnd 0 [0..<N_PAGES]"
    by (rule shuffle_loop_cong) simp
  then have "shuffled ?js = p" using rnd(2) by (simp add: shuffled_eq)
  ultimately show ?thesis by (rule bexI[rotated])
qed

lemma finite_draw_sequences: "finite draw_sequences"
  unfolding draw_sequences_def by (rule finite_lists_length_eq) simp

lemma card_draw_sequences: "card draw_sequences = N_PAGES ^ N_PAGES"
  unfolding draw_sequences_def using card_lists_length_eq[of "{..<N_PAGES}" N_PAGES] by simp

lemma is_permutation_iff:
  "is_permutation xs \<longleftrightarrow> length xs = N_PAGES \<and> distinct xs \<and> set xs \<subseteq> {..<N_PAGES}"
proof
  assume "is_permutation xs"
  then show "length xs = N_PAGES \<and> distinct xs \<and> set xs \<subseteq> {..<N_PAGES}"
    using is_permutation_length[of xs] by (simp add: is_permutation_def)
next
  assume a: "length xs = N_PAGES \<and> distinct xs \<and> set xs \<subseteq> {..<N_PAGES}"
  then have "card (set xs) = card {..<N_PAGES}" by (simp add: distinct_card)
  with a have "set xs = {..<N_PAGES}" by (intro card_subset_eq) simp_all
  with a show "is_permutation xs" by (simp add: is_permutation_def)
qed

lemma permutations_eq:
  "{p. is_permutation p} =
   {xs. length xs = N_PAGES \<and> distinct xs \<and> set xs \<subseteq> {..<N_PAGES}}"
  by (simp only: is_permutation_iff)

lemma finite_permutations: "finite {p. is_permutation p}"
proof (rule finite_subset)
  show "{p. is_permutation p} \<subseteq> {xs. set xs \<subseteq> {..<N_PAGES} \<and> length xs = N_PAGES}"
    by (auto simp: is_permutation_iff)
  show "finite {xs. set xs \<subseteq> {..<N_PAGES} \<and> length xs = N_PAGES}"
    by (rule finite_lists_length_eq) simp
qed

lemma card_permutations: "card {p. is_permutation p} = \<Prod>{1..N_PAGES}"
proof -
  have "card {xs. length xs = N_PAGES \<and> distinct xs \<and> set xs \<subseteq> {..<N_PAGES}} =
          \<Prod>{card {..<N_PAGES} - N_PAGES + 1..card {..<N_PAGES}}"
    by (rule card_lists_distinct_length_eq) simp_all
  then show ?thesis by (simp only: permutations_eq card_lessThan diff_self_eq_0 add_0)
qed

lemma three_dvd_permutations: "3 dvd card {p. is_permutation p}"
proof -
  have "3 \<in> {1..N_PAGES}" unfolding N_PAGES_def by simp
  then have "(\<lambda>x. x) 3 dvd prod (\<lambda>x. x) {1..N_PAGES}"
    by (intro dvd_prodI) (rule finite_atLeastAtMost)
  then show ?thesis by (simp only: card_permutations)
qed

lemma coprime_3_N_PAGES: "coprime 3 N_PAGES"
proof -
  have "coprime (Suc 2) 2" by (rule coprime_Suc_left_nat)
  then have "coprime (3::nat) 2" by (simp only: numeral_3_eq_3 numeral_2_eq_2)
  then have "coprime (3::nat) (2 ^ 9)" by (simp only: coprime_power_right_iff simp_thms)
  moreover have "N_PAGES = 2 ^ 9" unfolding N_PAGES_def by simp
  ultimately show ?thesis by (simp only:)
qed

lemma three_not_dvd_draws: "\<not> 3 dvd card draw_sequences"
proof
  assume "3 dvd card draw_sequences"
  then have d: "3 dvd N_PAGES ^ N_PAGES" by (simp only: card_draw_sequences)
  have "coprime 3 (N_PAGES ^ N_PAGES)"
    using coprime_3_N_PAGES by (simp only: coprime_power_right_iff simp_thms)
  then have "is_unit (3::nat)" using d by (rule coprime_common_divisor[OF _ dvd_refl])
  then show False by simp
qed

lemma card_draws_sum: "card draw_sequences = (\<Sum>p\<in>{p. is_permutation p}. ways p)"
proof -
  let ?A = "\<lambda>p. {js \<in> draw_sequences. shuffled js = p}"
  have "draw_sequences = \<Union>(?A ` {p. is_permutation p})"
    by (auto simp: shuffled_permutation)
  then have "card draw_sequences = card (\<Union>(?A ` {p. is_permutation p}))" by simp
  also have "\<dots> = (\<Sum>p\<in>{p. is_permutation p}. card (?A p))"
    by (rule card_UN_disjoint) (auto simp: finite_permutations finite_draw_sequences)
  finally show ?thesis by (simp only: ways_def)
qed

text \<open>
  C3, as stated, fails: the draw sequences, all equally likely when the draws are uniform
  and independent, do not split evenly over the permutations. There are
  \<open>N_PAGES ^ N_PAGES\<close> sequences, a power of 2, and the number of permutations is a
  multiple of 3.
\<close>

theorem shuffle_not_uniform:
  "\<not> (\<forall>p q. is_permutation p \<and> is_permutation q \<longrightarrow> ways p = ways q)"
proof
  assume u: "\<forall>p q. is_permutation p \<and> is_permutation q \<longrightarrow> ways p = ways q"
  have c: "\<And>p. p \<in> {p. is_permutation p} \<Longrightarrow> ways p = ways [0..<N_PAGES]"
    using u is_permutation_upt by blast
  have "(\<Sum>p\<in>{p. is_permutation p}. ways p) =
             (\<Sum>p\<in>{p. is_permutation p}. ways [0..<N_PAGES])"
    by (rule sum.cong[OF refl c])
  also have "\<dots> = card {p. is_permutation p} * ways [0..<N_PAGES]"
    by (simp only: sum_constant of_nat_id)
  finally have "card draw_sequences = card {p. is_permutation p} * ways [0..<N_PAGES]"
    by (simp only: card_draws_sum)
  moreover have "3 dvd card {p. is_permutation p} * ways [0..<N_PAGES]"
    using three_dvd_permutations by (rule dvd_mult2)
  ultimately have "3 dvd card draw_sequences" by (simp only:)
  with three_not_dvd_draws show False by (rule notE)
qed

lemma ways_positive:
  assumes "is_permutation p"
  shows "0 < ways p"
proof -
  from shuffled_onto[OF assms] obtain js where "js \<in> draw_sequences" "shuffled js = p"
    by blast
  then have "{js \<in> draw_sequences. shuffled js = p} \<noteq> {}" by blast
  moreover have "finite {js \<in> draw_sequences. shuffled js = p}"
    using finite_draw_sequences by simp
  ultimately show ?thesis unfolding ways_def by (simp add: card_gt_0_iff)
qed

text \<open>
  C3, as amended. The random order is what the swap shuffle makes of the identity with
  the next \<^verbatim>\<open>N_PAGES\<close> draws: round i exchanges entries i and j, where j is drawn
  from the whole range (Fisher-Yates would draw it from i on). Every sequence of draws
  gives a permutation of the page indices and every permutation is given by at least one
  sequence, though not all by equally many.
\<close>

theorem random_order_is_swap_shuffle:
  "(length order = N_PAGES \<and> (\<forall>k. mwc32modn e k < N_PAGES) \<longrightarrow>
      fst (random_order e order s) =
        shuffled (map (\<lambda>i. mwc32modn e (n_rand s + i)) [0..<N_PAGES]) \<and>
      map (\<lambda>i. mwc32modn e (n_rand s + i)) [0..<N_PAGES] \<in> draw_sequences) \<and>
   shuffled js = shuffle_loop (\<lambda>i. js ! i) 0 [0..<N_PAGES] \<and>
   (i < N_PAGES \<longrightarrow>
      shuffle_loop rnd i xs =
        shuffle_loop rnd (Suc i) (xs[i := xs ! rnd i, rnd i := xs ! i])) \<and>
   (\<not> i < N_PAGES \<longrightarrow> shuffle_loop rnd i xs = xs) \<and>
   (js \<in> draw_sequences \<longrightarrow> is_permutation (shuffled js)) \<and>
   (is_permutation p \<longrightarrow> 0 < ways p)"
proof (intro conjI impI)
  assume a: "length order = N_PAGES \<and> (\<forall>k. mwc32modn e k < N_PAGES)"
  then show "fst (random_order e order s) =
        shuffled (map (\<lambda>i. mwc32modn e (n_rand s + i)) [0..<N_PAGES])"
    by (simp only: random_order_shuffled)
  from a show "map (\<lambda>i. mwc32modn e (n_rand s + i)) [0..<N_PAGES] \<in> draw_sequences"
    by (auto simp: draw_sequences_def)
next
  show "shuffled js = shuffle_loop (\<lambda>i. js ! i) 0 [0..<N_PAGES]" by (rule shuffled_eq)
next
  assume "i < N_PAGES"
  then show "shuffle_loop rnd i xs =
        shuffle_loop rnd (Suc i) (xs[i := xs ! rnd i, rnd i := xs ! i])"
    by (rule shuffle_loop_step)
next
  assume "\<not> i < N_PAGES"
  then show "shuffle_loop rnd i xs = xs" by (rule shuffle_loop_done)
next
  assume "js \<in> draw_sequences"
  then show "is_permutation (shuffled js)" by (rule shuffled_permutation)
next
  assume "is_permutation p"
  then show "0 < ways p" by (rule ways_positive)
qed

text \<open>The hypotheses of the amended C3 hold for the draws of \<open>ideal_env\<close>, for the
  sequence of zeros and for the identity permutation.\<close>

theorem random_order_is_swap_shuffle_witness:
  "length (replicate N_PAGES (0::nat)) = N_PAGES \<and>
   fst (random_order ideal_env (replicate N_PAGES 0) fresh) =
     shuffled (map (\<lambda>i. mwc32modn ideal_env (n_rand fresh + i)) [0..<N_PAGES]) \<and>
   replicate N_PAGES 0 \<in> draw_sequences \<and>
   is_permutation (shuffled (replicate N_PAGES 0)) \<and>
   is_permutation [0..<N_PAGES] \<and>
   0 < ways [0..<N_PAGES] \<and>
   0 < N_PAGES \<and>
   shuffle_loop (\<lambda>k. 0) 0 [0..<N_PAGES] =
     shuffle_loop (\<lambda>k. 0) (Suc 0)
       ([0..<N_PAGES][0 := [0..<N_PAGES] ! 0, 0 := [0..<N_PAGES] ! 0]) \<and>
   \<not> N_PAGES < N_PAGES \<and>
   shuffle_loop (\<lambda>k. 0) N_PAGES [0..<N_PAGES] = [0..<N_PAGES]"
proof -
  note a = random_order_is_swap_shuffle[where order = "replicate N_PAGES 0" and e = ideal_env
      and s = fresh and js = "replicate N_PAGES 0" and i = 0 and rnd = "\<lambda>k. 0"
      and xs = "[0..<N_PAGES]" and p = "[0..<N_PAGES]"]
  note b = random_order_is_swap_shuffle[where i = N_PAGES and rnd = "\<lambda>k. 0"
      and xs = "[0..<N_PAGES]", THEN conjunct2, THEN conjunct2, THEN conjunct2, THEN conjunct1]
  have h1: "length (replicate N_PAGES (0::nat)) = N_PAGES \<and>
            (\<forall>k. mwc32modn ideal_env k < N_PAGES)"
    using mwc32modn_ideal by simp
  have h2: "replicate N_PAGES 0 \<in> draw_sequences"
    using zero_less_N_PAGES by (auto simp: draw_sequences_def)
  have h3: "0 < N_PAGES" by (rule zero_less_N_PAGES)
  have h4: "\<not> N_PAGES < N_PAGES" by simp
  note c1 = a[THEN conjunct1, THEN mp, OF h1, THEN conjunct1]
  note c3 = a[THEN conjunct2, THEN conjunct2, THEN conjunct1, THEN mp, OF h3]
  note c4 = b[THEN mp, OF h4]
  note c5 = a[THEN conjunct2, THEN conjunct2, THEN conjunct2, THEN conjunct2, THEN conjunct1,
      THEN mp, OF h2]
  note c6 = a[THEN conjunct2, THEN conjunct2, THEN conjunct2, THEN conjunct2, THEN conjunct2,
      THEN mp, OF is_permutation_upt]
  from h1[THEN conjunct1] c1 h2 c5 is_permutation_upt c6 h3 c3 h4 c4
  show ?thesis by (intro conjI)
qed

section \<open>The verification of the passes\<close>

lemma failures_append [simp]: "failures (xs @ ys) = failures xs @ failures ys"
  by (simp add: failures_def map_filter_def)

lemma failures_simps [simp]:
  "failures [] = []"
  "failures (PrFail m # evs) = m # failures evs"
  "failures (RemapFilePages t a p b # evs) = failures evs"
  "failures (Mlock j # evs) = failures evs"
  "failures (Munlock j # evs) = failures evs"
  "failures (IncCounter # evs) = failures evs"
  by (simp_all add: failures_def map_filter_def)

lemma remap_page_failures:
  "failures (trace (snd (remap_page e order i s))) = failures (trace s)"
  by (simp add: remap_page_trace)

lemma remap_order_loop_failures:
  "failures (trace (snd (remap_order_loop e order i s))) =
     failures (trace s) @
     (if fst (remap_order_loop e order i s) < 0 then [''remap_file_pages failed''] else [])"
proof (induction "N_PAGES - i" arbitrary: i s)
  case 0
  then show ?case by (simp add: remap_order_loop_done)
next
  case (Suc n)
  then have i: "i < N_PAGES" by simp
  show ?case
  proof (cases "fst (remap_page e order i s) < 0")
    case True
    with i show ?thesis
      by (simp add: remap_order_loop_fail pr_fail_def emit_def remap_page_failures)
  next
    case False
    from Suc(2) have "n = N_PAGES - Suc i" by simp
    from Suc(1)[OF this, of "snd (remap_page e order i s)"] i False show ?thesis
      by (simp add: remap_order_loop_next remap_page_failures)
  qed
qed

lemma check_order_passes:
  assumes "conforming e" "tags_intact s" "\<forall>i<N_PAGES. order ! i < N_PAGES"
    and "\<not> fst (remap_order e order s) < 0"
  shows "check_order order name (snd (remap_order e order s)) = snd (remap_order e order s)"
proof -
  have "\<not> (\<exists>i<N_PAGES. unat (tag_at (snd (remap_order e order s)) i) \<noteq> order ! i)"
    using remap_order_tags[OF assms] by simp
  then show ?thesis by (simp only: check_order_eq if_False)
qed

lemma remap_order_tags_intact:
  "tags_intact s \<Longrightarrow> tags_intact (snd (remap_order e order s))"
  by (simp add: tags_intact_def remap_order_def remap_order_loop_slot0)

lemma pass_conforming:
  assumes "conforming e" "tags_intact s" "\<forall>i<N_PAGES. order ! i < N_PAGES"
    and "pass e order name s = (fl, s')"
  shows "tags_intact s' \<and>
         failures (trace s') =
           failures (trace s) @ (if fl = Break then [''remap_file_pages failed''] else [])"
  using assms(4)
proof (rule pass_cases)
  assume a: "fl = Break" "fst (remap_order e order s) < 0" "s' = snd (remap_order e order s)"
  have "failures (trace s') = failures (trace s) @ [''remap_file_pages failed'']"
    using a(2) unfolding a(3) remap_order_def by (simp only: remap_order_loop_failures if_True)
  with a(1) remap_order_tags_intact[OF assms(2), of e order] a(3) show ?thesis by simp
next
  assume a: "fl = Continue" "\<not> fst (remap_order e order s) < 0"
    "s' = check_order order name (snd (remap_order e order s))"
  have s': "s' = snd (remap_order e order s)"
    unfolding a(3) using assms(1,2,3) a(2) by (rule check_order_passes)
  have "failures (trace s') = failures (trace s)"
    using a(2) unfolding s' remap_order_def by (simp only: remap_order_loop_failures if_False append_Nil2)
  with a(1) remap_order_tags_intact[OF assms(2), of e order] s' show ?thesis by simp
qed

lemma order_bounds:
  assumes "length order = N_PAGES"
  shows "\<forall>i<N_PAGES. reverse_loop 0 order ! i < N_PAGES"
    and "\<forall>i<N_PAGES. forward_loop 0 order ! i < N_PAGES"
    and "\<forall>i<N_PAGES. all_to_1_loop 0 order ! i < N_PAGES"
  using assms by (auto simp: nth_reverse_loop nth_forward_loop nth_all_to_1_loop)

lemma is_permutation_bounds:
  assumes "is_permutation p"
  shows "\<forall>i<N_PAGES. p ! i < N_PAGES"
proof (intro allI impI)
  fix i assume "i < N_PAGES"
  then have "p ! i \<in> set p" using is_permutation_length[OF assms] by simp
  then show "p ! i < N_PAGES" using assms by (simp add: is_permutation_def)
qed

lemma random_order_fields:
  "trace (snd (random_order e order s)) = trace s"
  "tags_intact (snd (random_order e order s)) = tags_intact s"
  by (simp_all add: random_order_def tags_intact_def)

lemma random_order_permutation:
  assumes "length order = N_PAGES" "\<forall>k. mwc32modn e k < N_PAGES"
  shows "is_permutation (fst (random_order e order s))"
  using assms is_permutation_shuffle[of "\<lambda>i. mwc32modn e (n_rand s + i)"]
  by (simp add: random_order_def forward_loop_upt)

lemma iteration_conforming:
  assumes c: "conforming e" and t: "tags_intact s" and d: "\<forall>k. mwc32modn e k < N_PAGES"
  shows "failures (trace (snd (iteration e s))) =
           failures (trace s) @
           (if fst (iteration e s) = Break then [''remap_file_pages failed''] else [])"
proof -
  let ?o1 = "reverse_loop 0 (replicate N_PAGES 0)"
  have l1: "length ?o1 = N_PAGES" by (simp add: length_reverse_loop)
  have b1: "\<forall>i<N_PAGES. ?o1 ! i < N_PAGES" by (rule order_bounds(1)) simp
  obtain f1 s1 where p1: "pass e ?o1 ''reverse'' s = (f1, s1)" by (cases "pass e ?o1 ''reverse'' s")
  note r1 = pass_conforming[OF c t b1 p1]
  show ?thesis
  proof (cases f1)
    case Break
    with p1 have "iteration e s = (Break, s1)" by (simp add: iteration_def Let_def)
    with r1 Break show ?thesis by simp
  next
    case f1: Continue
    let ?o2 = "fst (random_order e ?o1 s1)"
    let ?s1 = "snd (random_order e ?o1 s1)"
    have perm: "is_permutation ?o2" using l1 d by (rule random_order_permutation)
    have l2: "length ?o2 = N_PAGES" using perm by (rule is_permutation_length)
    have b2: "\<forall>i<N_PAGES. ?o2 ! i < N_PAGES" using perm by (rule is_permutation_bounds)
    have t1: "tags_intact ?s1" using r1 by (simp add: random_order_fields)
    obtain f2 s2 where p2: "pass e ?o2 ''random'' ?s1 = (f2, s2)"
      by (cases "pass e ?o2 ''random'' ?s1")
    note r2 = pass_conforming[OF c t1 b2 p2]
    have tr2: "failures (trace s2) =
        failures (trace s) @ (if f2 = Break then [''remap_file_pages failed''] else [])"
      using r1 r2 f1 by (simp add: random_order_fields)
    show ?thesis
    proof (cases f2)
      case Break
      with p1 f1 p2 have "iteration e s = (Break, s2)"
        by (simp add: iteration_def Let_def split_beta)
      with tr2 Break show ?thesis by simp
    next
      case f2: Continue
      let ?o3 = "all_to_1_loop 0 ?o2"
      have l3: "length ?o3 = N_PAGES" using l2 by (simp add: length_all_to_1_loop)
      have b3: "\<forall>i<N_PAGES. ?o3 ! i < N_PAGES" using l2 by (rule order_bounds(3))
      have t2: "tags_intact s2" using r2 by simp
      obtain f3 s3 where p3: "pass e ?o3 ''all-to-1'' s2 = (f3, s3)"
        by (cases "pass e ?o3 ''all-to-1'' s2")
      note r3 = pass_conforming[OF c t2 b3 p3]
      have tr3: "failures (trace s3) =
          failures (trace s) @ (if f3 = Break then [''remap_file_pages failed''] else [])"
        using tr2 r3 f2 by simp
      show ?thesis
      proof (cases f3)
        case Break
        with p1 f1 p2 f2 p3 have "iteration e s = (Break, s3)"
          by (simp add: iteration_def Let_def split_beta)
        with tr3 Break show ?thesis by simp
      next
        case f3: Continue
        let ?o4 = "forward_loop 0 ?o3"
        have b4: "\<forall>i<N_PAGES. ?o4 ! i < N_PAGES" using l3 by (rule order_bounds(2))
        have t3: "tags_intact s3" using r3 by simp
        obtain f4 s4 where p4: "pass e ?o4 ''forward'' s3 = (f4, s4)"
          by (cases "pass e ?o4 ''forward'' s3")
        note r4 = pass_conforming[OF c t3 b4 p4]
        have tr4: "failures (trace s4) =
            failures (trace s) @ (if f4 = Break then [''remap_file_pages failed''] else [])"
          using tr3 r4 f3 by simp
        show ?thesis
        proof (cases f4)
          case Break
          with p1 f1 p2 f2 p3 f3 p4 have "iteration e s = (Break, s4)"
            by (simp add: iteration_def Let_def split_beta)
          with tr4 Break show ?thesis by simp
        next
          case f4: Continue
          with p1 f1 p2 f2 p3 f3 p4
          have "iteration e s = (Continue, inc_counter (illegal_remaps e ?o4 s4))"
            by (simp add: iteration_def Let_def split_beta)
          moreover have "failures (trace (inc_counter (illegal_remaps e ?o4 s4))) =
                         failures (trace s4)"
            by (simp add: illegal_remaps_def emit_def inc_counter_def)
          ultimately show ?thesis using tr4 f4 by simp
        qed
      qed
    qed
  qed
qed

section \<open>A kernel that grants and then refuses\<close>

lemma remap_page_n_remap:
  "n_remap (snd (remap_page e order i s)) =
     n_remap s +
     (if have_mlock e \<and> fst (sys_remap_file_pages e (n_remap s) i (order ! i)) \<noteq> 0
      then 2 else 1)"
  by (simp add: remap_page_defs split_beta)


lemma remap_page_cursors:
  "n_rand (snd (remap_page e order i s)) = n_rand s"
  "n_keep (snd (remap_page e order i s)) = n_keep s"
  by (simp_all add: remap_page_defs split_beta)

lemma remap_order_loop_cursors:
  "n_rand (snd (remap_order_loop e order i s)) = n_rand s \<and>
   n_keep (snd (remap_order_loop e order i s)) = n_keep s"
proof (induction "N_PAGES - i" arbitrary: i s)
  case 0
  then show ?case by (simp add: remap_order_loop_done)
next
  case (Suc n)
  then have i: "i < N_PAGES" by simp
  show ?case
  proof (cases "fst (remap_page e order i s) < 0")
    case True
    with i show ?thesis
      by (simp add: remap_order_loop_fail pr_fail_def emit_def remap_page_cursors)
  next
    case False
    from Suc(2) have "n = N_PAGES - Suc i" by simp
    from Suc(1)[OF this, of "snd (remap_page e order i s)"] i False show ?thesis
      by (simp add: remap_order_loop_next remap_page_cursors)
  qed
qed

lemma remap_order_loop_granted:
  assumes "grants_until e n"
  shows "n_remap s + (N_PAGES - i) \<le> n \<Longrightarrow>
         fst (remap_order_loop e order i s) = 0 \<and>
         n_remap (snd (remap_order_loop e order i s)) = n_remap s + (N_PAGES - i)"
proof (induction "N_PAGES - i" arbitrary: i s)
  case 0
  then show ?case by (simp add: remap_order_loop_done)
next
  case (Suc m)
  then have i: "i < N_PAGES" by simp
  let ?s = "snd (remap_page e order i s)"
  have "n_remap s < n" using Suc(2,3) by simp
  then have z: "fst (sys_remap_file_pages e (n_remap s) i (order ! i)) = 0"
    using assms by (simp add: grants_until_def)
  then have r: "fst (remap_page e order i s) = 0" by (simp add: remap_page_ret)
  have k: "n_remap ?s = Suc (n_remap s)" using z by (simp add: remap_page_n_remap)
  from Suc(2) have m: "m = N_PAGES - Suc i" by simp
  have "n_remap ?s + (N_PAGES - Suc i) \<le> n" using k Suc(3) i by simp
  from Suc(1)[OF m this] i r k show ?case by (simp add: remap_order_loop_next)
qed

lemma remap_page_refused:
  assumes "refuses_at e (n_remap s)"
  shows "fst (remap_page e order i s) < 0 \<and>
         n_remap (snd (remap_page e order i s)) = n_remap s + (if have_mlock e then 2 else 1)"
proof -
  from assms have "fst (sys_remap_file_pages e (n_remap s) i (order ! i)) < 0"
    and "have_mlock e \<longrightarrow> fst (sys_remap_file_pages e (Suc (n_remap s)) i (order ! i)) < 0"
    by (simp_all add: refuses_at_def)
  then show ?thesis by (auto simp: remap_page_ret remap_page_n_remap)
qed

lemma remap_order_loop_refused:
  assumes g: "grants_until e n" and r: "refuses_at e n"
  shows "n_remap s \<le> n \<Longrightarrow> n < n_remap s + (N_PAGES - i) \<Longrightarrow>
         fst (remap_order_loop e order i s) = - 1 \<and>
         n_remap (snd (remap_order_loop e order i s)) = n + (if have_mlock e then 2 else 1) \<and>
         (\<exists>pre. trace (snd (remap_order_loop e order i s)) =
            trace s @ pre @
            [RemapFilePages (DataPage (i + (n - n_remap s))) 0 (order ! (i + (n - n_remap s))) 0,
             PrFail ''remap_file_pages failed''])"
proof (induction "N_PAGES - i" arbitrary: i s)
  case 0
  then show ?case by simp
next
  case (Suc m)
  then have i: "i < N_PAGES" by simp
  let ?s = "snd (remap_page e order i s)"
  obtain evs where evs: "trace ?s = trace s @ evs"
    and last: "fst (remap_page e order i s) < 0 \<longrightarrow>
       (\<exists>pre. evs = pre @ [RemapFilePages (DataPage i) 0 (order ! i) 0])"
    using remap_page_events[of e order i s] by (elim exE conjE) (rule that; assumption)
  show ?case
  proof (cases "n_remap s = n")
    case True
    with r have rr: "refuses_at e (n_remap s)" by simp
    note p = remap_page_refused[OF rr, of order i]
    from p have neg: "fst (remap_page e order i s) < 0" by (rule conjunct1)
    with last obtain pre where pre: "evs = pre @ [RemapFilePages (DataPage i) 0 (order ! i) 0]"
      by (elim impE exE) (assumption, rule that)
    have eq: "remap_order_loop e order i s = (- 1, pr_fail ''remap_file_pages failed'' ?s)"
      using i neg by (rule remap_order_loop_fail)
    have t: "trace (snd (remap_order_loop e order i s)) =
            trace s @ pre @
            [RemapFilePages (DataPage (i + (n - n_remap s))) 0 (order ! (i + (n - n_remap s))) 0,
             PrFail ''remap_file_pages failed'']"
      unfolding eq using evs pre True by (simp add: pr_fail_def emit_def)
    have "\<exists>pre. trace (snd (remap_order_loop e order i s)) =
            trace s @ pre @
            [RemapFilePages (DataPage (i + (n - n_remap s))) 0 (order ! (i + (n - n_remap s))) 0,
             PrFail ''remap_file_pages failed'']"
      using t by (rule exI[where x = pre])
    moreover have "fst (remap_order_loop e order i s) = - 1" unfolding eq by simp
    moreover have "n_remap (snd (remap_order_loop e order i s)) =
                   n + (if have_mlock e then 2 else 1)"
      unfolding eq using p True by (simp add: pr_fail_def emit_def)
    ultimately show ?thesis by simp
  next
    case False
    with Suc(3) have lt: "n_remap s < n" by simp
    then have z: "fst (sys_remap_file_pages e (n_remap s) i (order ! i)) = 0"
      using g by (simp add: grants_until_def)
    then have ok: "fst (remap_page e order i s) = 0" by (simp add: remap_page_ret)
    have k: "n_remap ?s = Suc (n_remap s)" using z by (simp add: remap_page_n_remap)
    have eq: "remap_order_loop e order i s = remap_order_loop e order (Suc i) ?s"
      using i ok by (simp add: remap_order_loop_next)
    from Suc(2) have m: "m = N_PAGES - Suc i" by simp
    have a: "n_remap ?s \<le> n" using k lt by simp
    have b: "n < n_remap ?s + (N_PAGES - Suc i)" using k Suc(4) i by simp
    note IH = Suc(1)[OF m a b]
    have idx: "Suc i + (n - n_remap ?s) = i + (n - n_remap s)" using k lt by simp
    from IH obtain pre where
      pre: "trace (snd (remap_order_loop e order (Suc i) ?s)) =
            trace ?s @ pre @
            [RemapFilePages (DataPage (Suc i + (n - n_remap ?s))) 0
               (order ! (Suc i + (n - n_remap ?s))) 0,
             PrFail ''remap_file_pages failed'']"
      by (elim exE conjE) (rule that)
    have t: "trace (snd (remap_order_loop e order i s)) =
            trace s @ (evs @ pre) @
            [RemapFilePages (DataPage (i + (n - n_remap s))) 0 (order ! (i + (n - n_remap s))) 0,
             PrFail ''remap_file_pages failed'']"
      unfolding eq pre evs idx by simp
    have "\<exists>pre. trace (snd (remap_order_loop e order i s)) =
            trace s @ pre @
            [RemapFilePages (DataPage (i + (n - n_remap s))) 0 (order ! (i + (n - n_remap s))) 0,
             PrFail ''remap_file_pages failed'']"
      using t by (rule exI[where x = "evs @ pre"])
    moreover have "fst (remap_order_loop e order i s) = - 1"
      unfolding eq using IH by (rule conjunct1)
    moreover have "n_remap (snd (remap_order_loop e order i s)) =
                   n + (if have_mlock e then 2 else 1)"
      unfolding eq using IH[THEN conjunct2] by (rule conjunct1)
    ultimately show ?thesis by (intro conjI)
  qed
qed


lemma check_order_cursors [simp]:
  "n_remap (check_order order name s) = n_remap s"
  "n_time (check_order order name s) = n_time s"
  "n_rand (check_order order name s) = n_rand s"
  "n_keep (check_order order name s) = n_keep s"
  by (simp_all add: check_order_def pr_fail_def emit_def)

lemma check_order_trace:
  "\<exists>evs. trace (check_order order name s) = trace s @ evs"
  by (simp add: check_order_def pr_fail_def emit_def)

lemma pass_granted:
  assumes g: "grants_until e n" and le: "n_remap t + N_PAGES \<le> n"
    and tr: "trace t = trace s @ evs0"
  shows "\<exists>s'. pass e order name t = (Continue, s') \<and> n_remap s' = n_remap t + N_PAGES \<and>
              n_rand s' = n_rand t \<and> n_keep s' = n_keep t \<and>
              (\<exists>evs. trace s' = trace s @ evs)"
proof -
  let ?r = "remap_order e order t"
  let ?s' = "check_order order name (snd ?r)"
  from le have "n_remap t + (N_PAGES - 0) \<le> n" by simp
  note l = remap_order_loop_granted[OF g this, of order]
  from l have z: "fst ?r = 0" by (simp add: remap_order_def)
  from l have k: "n_remap (snd ?r) = n_remap t + N_PAGES" by (simp add: remap_order_def)
  have p: "pass e order name t = (Continue, ?s')" using z by (simp add: pass_def split_beta)
  have "\<exists>evs. trace (snd ?r) = trace t @ evs"
    using remap_order_loop_events[of e order 0 t] by (auto simp: remap_order_def)
  then obtain evs1 where e1: "trace (snd ?r) = trace t @ evs1"
    by (elim exE) (rule that)
  obtain evs2 where e2: "trace ?s' = trace (snd ?r) @ evs2"
    using check_order_trace[of order name "snd ?r"] by (elim exE) (rule that)
  have "trace ?s' = trace s @ (evs0 @ evs1 @ evs2)" unfolding e2 e1 tr by simp
  then have "\<exists>evs. trace ?s' = trace s @ evs" by (rule exI[where x = "evs0 @ evs1 @ evs2"])
  moreover have "n_rand ?s' = n_rand t" "n_keep ?s' = n_keep t"
    using remap_order_loop_cursors[of e order 0 t] by (simp_all add: remap_order_def)
  ultimately show ?thesis using p k by simp
qed

lemma pass_refused:
  assumes g: "grants_until e n" and r: "refuses_at e n"
    and n: "n = n_remap t + j" and j: "j < N_PAGES"
    and tr: "trace t = trace s @ evs0"
  shows "\<exists>s'. pass e order name t = (Break, s') \<and>
              n_remap s' = n + (if have_mlock e then 2 else 1) \<and>
              (\<exists>pre pgoff. trace s' =
                 trace s @ pre @ [RemapFilePages (DataPage j) 0 pgoff 0,
                                  PrFail ''remap_file_pages failed''])"
proof -
  let ?r = "remap_order e order t"
  have a: "n_remap t \<le> n" using n by simp
  have b: "n < n_remap t + (N_PAGES - 0)" using n j by simp
  note l = remap_order_loop_refused[OF g r a b, of order]
  have jj: "0 + (n - n_remap t) = j" using n by simp
  from l have z: "fst ?r = - 1" by (simp add: remap_order_def)
  from l have k: "n_remap (snd ?r) = n + (if have_mlock e then 2 else 1)"
    by (simp add: remap_order_def)
  from l[THEN conjunct2, THEN conjunct2] have "\<exists>pre. trace (snd ?r) = trace t @ pre @
            [RemapFilePages (DataPage j) 0 (order ! j) 0, PrFail ''remap_file_pages failed'']"
    unfolding jj remap_order_def .
  then obtain pre where
    pre: "trace (snd ?r) = trace t @ pre @
            [RemapFilePages (DataPage j) 0 (order ! j) 0, PrFail ''remap_file_pages failed'']"
    by (elim exE) (rule that)
  have "trace (snd ?r) = trace s @ (evs0 @ pre) @
            [RemapFilePages (DataPage j) 0 (order ! j) 0, PrFail ''remap_file_pages failed'']"
    unfolding pre tr by simp
  then have "\<exists>pgoff. trace (snd ?r) = trace s @ (evs0 @ pre) @
            [RemapFilePages (DataPage j) 0 pgoff 0, PrFail ''remap_file_pages failed'']"
    by (rule exI[where x = "order ! j"])
  then have ex: "\<exists>pre pgoff. trace (snd ?r) = trace s @ pre @
            [RemapFilePages (DataPage j) 0 pgoff 0, PrFail ''remap_file_pages failed'']"
    by (rule exI[where x = "evs0 @ pre"])
  have p: "pass e order name t = (Break, snd ?r)" using z by (simp add: pass_def split_beta)
  from p k ex show ?thesis by simp
qed

lemma iteration_reverse_break:
  "pass e (reverse_loop 0 (replicate N_PAGES 0)) ''reverse'' s = (Break, s1) \<Longrightarrow>
   iteration e s = (Break, s1)"
  by (simp add: iteration_def Let_def)

lemma iteration_random_break:
  "pass e (reverse_loop 0 (replicate N_PAGES 0)) ''reverse'' s = (Continue, s1) \<Longrightarrow>
   random_order e (reverse_loop 0 (replicate N_PAGES 0)) s1 = (o2, t1) \<Longrightarrow>
   pass e o2 ''random'' t1 = (Break, s2) \<Longrightarrow>
   iteration e s = (Break, s2)"
  by (simp add: iteration_def Let_def)

lemma iteration_all_to_1_break:
  "pass e (reverse_loop 0 (replicate N_PAGES 0)) ''reverse'' s = (Continue, s1) \<Longrightarrow>
   random_order e (reverse_loop 0 (replicate N_PAGES 0)) s1 = (o2, t1) \<Longrightarrow>
   pass e o2 ''random'' t1 = (Continue, s2) \<Longrightarrow>
   pass e (all_to_1_loop 0 o2) ''all-to-1'' s2 = (Break, s3) \<Longrightarrow>
   iteration e s = (Break, s3)"
  by (simp add: iteration_def Let_def)

lemma iteration_forward_break:
  "pass e (reverse_loop 0 (replicate N_PAGES 0)) ''reverse'' s = (Continue, s1) \<Longrightarrow>
   random_order e (reverse_loop 0 (replicate N_PAGES 0)) s1 = (o2, t1) \<Longrightarrow>
   pass e o2 ''random'' t1 = (Continue, s2) \<Longrightarrow>
   pass e (all_to_1_loop 0 o2) ''all-to-1'' s2 = (Continue, s3) \<Longrightarrow>
   pass e (forward_loop 0 (all_to_1_loop 0 o2)) ''forward'' s3 = (Break, s4) \<Longrightarrow>
   iteration e s = (Break, s4)"
  by (simp add: iteration_def Let_def)

lemma iteration_refused:
  assumes g: "grants_until e n" and r: "refuses_at e n"
    and n: "n = n_remap s + q * N_PAGES + j" and q: "q < 4" and j: "j < N_PAGES"
  shows "\<exists>s'. iteration e s = (Break, s') \<and>
              n_remap s' = n + (if have_mlock e then 2 else 1) \<and>
              (\<exists>pre pgoff. trace s' =
                 trace s @ pre @ [RemapFilePages (DataPage j) 0 pgoff 0,
                                  PrFail ''remap_file_pages failed''])"
proof -
  let ?o1 = "reverse_loop 0 (replicate N_PAGES 0)"
  let ?C = "\<lambda>s'. n_remap s' = n + (if have_mlock e then 2 else 1) \<and>
              (\<exists>pre pgoff. trace s' =
                 trace s @ pre @ [RemapFilePages (DataPage j) 0 pgoff 0,
                                  PrFail ''remap_file_pages failed''])"
  have t0: "trace s = trace s @ []" by simp
  show ?thesis
  proof (cases "q = 0")
    case True
    with n have "n = n_remap s + j" by simp
    from pass_refused[OF g r this j t0, of ?o1 "''reverse''"]
    obtain s1 where
      pc: "pass e ?o1 ''reverse'' s = (Break, s1) \<and> ?C s1"
      by (elim exE) (rule that)
    from pc have p1: "pass e ?o1 ''reverse'' s = (Break, s1)"
      and c: "?C s1"
      by (rule conjunct1, rule conjunct2)
    from iteration_reverse_break[OF p1] c show ?thesis by simp
  next
    case q0: False
    have "n_remap s + N_PAGES \<le> n" using n q0 by (cases q) simp_all
    from pass_granted[OF g this t0, of ?o1 "''reverse''"]
    obtain s1 evs1 where p1: "pass e ?o1 ''reverse'' s = (Continue, s1)"
      and k1: "n_remap s1 = n_remap s + N_PAGES" and e1: "trace s1 = trace s @ evs1"
      by (elim exE conjE) (rule that)
    obtain o2 t1 where ro: "random_order e ?o1 s1 = (o2, t1)" by (cases "random_order e ?o1 s1")
    then have t1: "t1 = s1\<lparr>n_rand := n_rand s1 + N_PAGES\<rparr>" by (auto simp: random_order_def)
    have kt: "n_remap t1 = n_remap s + N_PAGES" and et: "trace t1 = trace s @ evs1"
      using k1 e1 by (simp_all add: t1)
    show ?thesis
    proof (cases "q = 1")
      case True
      with n kt have "n = n_remap t1 + j" by simp
      from pass_refused[OF g r this j et, of o2 "''random''"]
      obtain s2 where
        pc: "pass e o2 ''random'' t1 = (Break, s2) \<and> ?C s2"
        by (elim exE) (rule that)
      from pc have p2: "pass e o2 ''random'' t1 = (Break, s2)"
        and c: "?C s2"
        by (rule conjunct1, rule conjunct2)
      from iteration_random_break[OF p1 ro p2] c show ?thesis by simp
    next
      case q1: False
      have "n_remap t1 + N_PAGES \<le> n" using n q0 q1 kt
        by (cases q; cases "q - 1") simp_all
      from pass_granted[OF g this et, of o2 "''random''"]
      obtain s2 evs2 where p2: "pass e o2 ''random'' t1 = (Continue, s2)"
        and k2: "n_remap s2 = n_remap t1 + N_PAGES" and e2: "trace s2 = trace s @ evs2"
        by (elim exE conjE) (rule that)
      show ?thesis
      proof (cases "q = 2")
        case True
        with n kt k2 have "n = n_remap s2 + j" by simp
        from pass_refused[OF g r this j e2, of "all_to_1_loop 0 o2" "''all-to-1''"]
        obtain s3 where
          pc: "pass e (all_to_1_loop 0 o2) ''all-to-1'' s2 = (Break, s3) \<and> ?C s3"
          by (elim exE) (rule that)
        from pc have p3: "pass e (all_to_1_loop 0 o2) ''all-to-1'' s2 = (Break, s3)"
          and c: "?C s3"
          by (rule conjunct1, rule conjunct2)
        from iteration_all_to_1_break[OF p1 ro p2 p3] c show ?thesis by simp
      next
        case q2: False
        with q q0 q1 have q3: "q = 3" by simp
        have "n_remap s2 + N_PAGES \<le> n" using n q3 kt k2 by simp
        from pass_granted[OF g this e2, of "all_to_1_loop 0 o2" "''all-to-1''"]
        obtain s3 evs3 where p3: "pass e (all_to_1_loop 0 o2) ''all-to-1'' s2 = (Continue, s3)"
          and k3: "n_remap s3 = n_remap s2 + N_PAGES" and e3: "trace s3 = trace s @ evs3"
          by (elim exE conjE) (rule that)
        from n q3 kt k2 k3 have "n = n_remap s3 + j" by simp
        from pass_refused[OF g r this j e3, of "forward_loop 0 (all_to_1_loop 0 o2)" "''forward''"]
        obtain s4 where
          pc: "pass e (forward_loop 0 (all_to_1_loop 0 o2)) ''forward'' s3 = (Break, s4) \<and> ?C s4"
          by (elim exE) (rule that)
        from pc have p4: "pass e (forward_loop 0 (all_to_1_loop 0 o2)) ''forward'' s3 = (Break, s4)"
          and c: "?C s4"
          by (rule conjunct1, rule conjunct2)
        from iteration_forward_break[OF p1 ro p2 p3 p4] c show ?thesis by simp
      qed
    qed
  qed
qed

lemma pass_reports:
  assumes "pass e order name s = (fl, s')"
  shows "\<exists>r. failures (trace s') =
              failures (trace s) @ r @
              (if fl = Break then [''remap_file_pages failed''] else []) \<and>
             set r \<subseteq> {''remap '' @ name @ '' order pages failed''}"
  using assms
proof (rule pass_cases)
  assume a: "fl = Break" "fst (remap_order e order s) < 0" "s' = snd (remap_order e order s)"
  have "failures (trace s') = failures (trace s) @ [''remap_file_pages failed'']"
    using a(2) unfolding a(3) remap_order_def by (simp only: remap_order_loop_failures if_True)
  with a(1) have "failures (trace s') =
              failures (trace s) @ [] @
              (if fl = Break then [''remap_file_pages failed''] else []) \<and>
             set [] \<subseteq> {''remap '' @ name @ '' order pages failed''}"
    by simp
  then show ?thesis by (rule exI[where x = "[]"])
next
  assume a: "fl = Continue" "\<not> fst (remap_order e order s) < 0"
    "s' = check_order order name (snd (remap_order e order s))"
  let ?t = "snd (remap_order e order s)"
  let ?r = "if check_order_loop order ?t 0
            then [''remap '' @ name @ '' order pages failed''] else []"
  have "failures (trace ?t) = failures (trace s)"
    using a(2) unfolding remap_order_def
    by (simp only: remap_order_loop_failures if_False append_Nil2)
  then have "failures (trace s') = failures (trace s) @ ?r"
    unfolding a(3) by (simp add: check_order_def pr_fail_def emit_def)
  with a(1) have "failures (trace s') =
              failures (trace s) @ ?r @
              (if fl = Break then [''remap_file_pages failed''] else []) \<and>
             set ?r \<subseteq> {''remap '' @ name @ '' order pages failed''}"
    by auto
  then show ?thesis by (rule exI[where x = ?r])
qed


lemma random_order_log:
  "trace (snd (random_order e order s)) = trace s"
  "n_remap (snd (random_order e order s)) = n_remap s"
  "n_keep (snd (random_order e order s)) = n_keep s"
  by (simp_all add: random_order_def)

lemma reports_subsets:
  assumes "set r1 \<subseteq> {a}" "set r2 \<subseteq> {b}" "set r3 \<subseteq> {c}" "set r4 \<subseteq> {d}"
  shows "set r1 \<subseteq> {a, b, c, d}" "set (r1 @ r2) \<subseteq> {a, b, c, d}"
    "set (r1 @ r2 @ r3) \<subseteq> {a, b, c, d}" "set (r1 @ r2 @ r3 @ r4) \<subseteq> {a, b, c, d}"
  using assms by auto

lemma pass_reports_named:
  assumes "pass e order name s = (fl, s')"
    and "''remap '' @ name @ '' order pages failed'' = msg"
  shows "\<exists>r. failures (trace s') =
              failures (trace s) @ r @
              (if fl = Break then [''remap_file_pages failed''] else []) \<and>
             set r \<subseteq> {msg}"
  using pass_reports[OF assms(1)] unfolding assms(2) .

lemma iteration_reports:
  "\<exists>r. failures (trace (snd (iteration e s))) =
          failures (trace s) @ r @
          (if fst (iteration e s) = Break then [''remap_file_pages failed''] else []) \<and>
        set r \<subseteq> {''remap reverse order pages failed'', ''remap random order pages failed'',
                  ''remap all-to-1 order pages failed'', ''remap forward order pages failed''}"
proof -
  let ?o1 = "reverse_loop 0 (replicate N_PAGES 0)"
  let ?M = "{''remap reverse order pages failed'', ''remap random order pages failed'',
             ''remap all-to-1 order pages failed'', ''remap forward order pages failed''}"
  let ?F = "\<lambda>fl. if fl = Break then [''remap_file_pages failed''] else []"
  have n1: "''remap '' @ ''reverse'' @ '' order pages failed'' = ''remap reverse order pages failed''"
    and n2: "''remap '' @ ''random'' @ '' order pages failed'' = ''remap random order pages failed''"
    and n3: "''remap '' @ ''all-to-1'' @ '' order pages failed'' =
             ''remap all-to-1 order pages failed''"
    and n4: "''remap '' @ ''forward'' @ '' order pages failed'' = ''remap forward order pages failed''"
    by (simp_all only: append_Cons append_Nil)
  have none: "set [] \<subseteq> {x}" for x :: string by simp
  obtain f1 s1 where p1: "pass e ?o1 ''reverse'' s = (f1, s1)"
    by (cases "pass e ?o1 ''reverse'' s")
  from pass_reports_named[OF p1 n1] obtain r1 where
    r1: "failures (trace s1) = failures (trace s) @ r1 @ ?F f1"
    and m1: "set r1 \<subseteq> {''remap reverse order pages failed''}"
    by (elim exE conjE) (rule that)
  show ?thesis
  proof (cases f1)
    case Break
    with p1 have it: "iteration e s = (Break, s1)" by (simp add: iteration_def Let_def)
    have "failures (trace (snd (iteration e s))) =
          failures (trace s) @ r1 @ ?F (fst (iteration e s))"
      unfolding it using r1 Break by simp
    moreover note reports_subsets(1)[OF m1 none none none]
    ultimately have "failures (trace (snd (iteration e s))) =
          failures (trace s) @ r1 @ ?F (fst (iteration e s)) \<and> set r1 \<subseteq> ?M"
      by (rule conjI)
    then show ?thesis by (rule exI[where x = r1])
  next
    case f1: Continue
    obtain o2 t1 where ro: "random_order e ?o1 s1 = (o2, t1)" by (cases "random_order e ?o1 s1")
    then have tt: "trace t1 = trace s1"
      using random_order_log(1)[of e ?o1 s1] by simp
    obtain f2 s2 where p2: "pass e o2 ''random'' t1 = (f2, s2)"
      by (cases "pass e o2 ''random'' t1")
    from pass_reports_named[OF p2 n2] obtain r2 where
      r2: "failures (trace s2) = failures (trace t1) @ r2 @ ?F f2"
      and m2: "set r2 \<subseteq> {''remap random order pages failed''}"
      by (elim exE conjE) (rule that)
    have a2: "failures (trace s2) = failures (trace s) @ (r1 @ r2) @ ?F f2"
      using r1 r2 f1 tt by simp
    show ?thesis
    proof (cases f2)
      case Break
      with p1 f1 ro p2 have it: "iteration e s = (Break, s2)"
        by (simp add: iteration_def Let_def)
      have "failures (trace (snd (iteration e s))) =
            failures (trace s) @ (r1 @ r2) @ ?F (fst (iteration e s))"
        unfolding it using a2 Break by simp
      moreover note reports_subsets(2)[OF m1 m2 none none]
      ultimately have "failures (trace (snd (iteration e s))) =
            failures (trace s) @ (r1 @ r2) @ ?F (fst (iteration e s)) \<and> set (r1 @ r2) \<subseteq> ?M"
        by (rule conjI)
      then show ?thesis by (rule exI[where x = "r1 @ r2"])
    next
      case f2: Continue
      obtain f3 s3 where p3: "pass e (all_to_1_loop 0 o2) ''all-to-1'' s2 = (f3, s3)"
        by (cases "pass e (all_to_1_loop 0 o2) ''all-to-1'' s2")
      from pass_reports_named[OF p3 n3] obtain r3 where
        r3: "failures (trace s3) = failures (trace s2) @ r3 @ ?F f3"
        and m3: "set r3 \<subseteq> {''remap all-to-1 order pages failed''}"
        by (elim exE conjE) (rule that)
      have a3: "failures (trace s3) = failures (trace s) @ (r1 @ r2 @ r3) @ ?F f3"
        using a2 r3 f2 by simp
      show ?thesis
      proof (cases f3)
        case Break
        with p1 f1 ro p2 f2 p3 have it: "iteration e s = (Break, s3)"
          by (simp add: iteration_def Let_def)
        have "failures (trace (snd (iteration e s))) =
              failures (trace s) @ (r1 @ r2 @ r3) @ ?F (fst (iteration e s))"
          unfolding it using a3 Break by simp
        moreover note reports_subsets(3)[OF m1 m2 m3 none]
        ultimately have "failures (trace (snd (iteration e s))) =
              failures (trace s) @ (r1 @ r2 @ r3) @ ?F (fst (iteration e s)) \<and>
              set (r1 @ r2 @ r3) \<subseteq> ?M"
          by (rule conjI)
        then show ?thesis by (rule exI[where x = "r1 @ r2 @ r3"])
      next
        case f3: Continue
        let ?o4 = "forward_loop 0 (all_to_1_loop 0 o2)"
        obtain f4 s4 where p4: "pass e ?o4 ''forward'' s3 = (f4, s4)"
          by (cases "pass e ?o4 ''forward'' s3")
        from pass_reports_named[OF p4 n4] obtain r4 where
          r4: "failures (trace s4) = failures (trace s3) @ r4 @ ?F f4"
          and m4: "set r4 \<subseteq> {''remap forward order pages failed''}"
          by (elim exE conjE) (rule that)
        have a4: "failures (trace s4) = failures (trace s) @ (r1 @ r2 @ r3 @ r4) @ ?F f4"
          using a3 r4 f3 by simp
        note m = reports_subsets(4)[OF m1 m2 m3 m4]
        show ?thesis
        proof (cases f4)
          case Break
          with p1 f1 ro p2 f2 p3 f3 p4 have it: "iteration e s = (Break, s4)"
            by (simp add: iteration_def Let_def)
          have "failures (trace (snd (iteration e s))) =
                failures (trace s) @ (r1 @ r2 @ r3 @ r4) @ ?F (fst (iteration e s))"
            unfolding it using a4 Break by simp
          then have "failures (trace (snd (iteration e s))) =
                failures (trace s) @ (r1 @ r2 @ r3 @ r4) @ ?F (fst (iteration e s)) \<and>
                set (r1 @ r2 @ r3 @ r4) \<subseteq> ?M"
            using m by (rule conjI)
          then show ?thesis by (rule exI[where x = "r1 @ r2 @ r3 @ r4"])
        next
          case f4: Continue
          with p1 f1 ro p2 f2 p3 f3 p4
          have it: "iteration e s = (Continue, inc_counter (illegal_remaps e ?o4 s4))"
            by (simp add: iteration_def Let_def)
          have "failures (trace (inc_counter (illegal_remaps e ?o4 s4))) = failures (trace s4)"
            by (simp add: illegal_remaps_def emit_def inc_counter_def)
          then have "failures (trace (snd (iteration e s))) =
                failures (trace s) @ (r1 @ r2 @ r3 @ r4) @ ?F (fst (iteration e s))"
            unfolding it using a4 f4 by simp
          then have "failures (trace (snd (iteration e s))) =
                failures (trace s) @ (r1 @ r2 @ r3 @ r4) @ ?F (fst (iteration e s)) \<and>
                set (r1 @ r2 @ r3 @ r4) \<subseteq> ?M"
            using m by (rule conjI)
          then show ?thesis by (rule exI[where x = "r1 @ r2 @ r3 @ r4"])
        qed
      qed
    qed
  qed
qed

lemma init_loop_cursors:
  "n_remap (init_loop i s) = n_remap s \<and> n_time (init_loop i s) = n_time s \<and>
   n_rand (init_loop i s) = n_rand s \<and> n_keep (init_loop i s) = n_keep s"
proof (induction "N_PAGES - i" arbitrary: i s)
  case 0
  then show ?case by (simp add: init_loop_done)
next
  case (Suc n)
  then have i: "i < N_PAGES" by simp
  from Suc(2) have "n = N_PAGES - Suc i" by simp
  from Suc(1)[OF this, of "store_tag i (word_of_nat i) s"] i show ?case
    by (simp add: init_loop_step store_tag_def)
qed

lemma iteration_passes:
  "(let o1 = reverse_loop 0 (replicate N_PAGES 0);
        p1 = pass e o1 ''reverse'' s;
        r = random_order e o1 (snd p1);
        p2 = pass e (fst r) ''random'' (snd r);
        o3 = all_to_1_loop 0 (fst r);
        p3 = pass e o3 ''all-to-1'' (snd p2);
        p4 = pass e (forward_loop 0 o3) ''forward'' (snd p3)
    in iteration e s =
         (if fst p1 = Break then p1
          else if fst p2 = Break then p2
          else if fst p3 = Break then p3
          else if fst p4 = Break then p4
          else (Continue, inc_counter (illegal_remaps e (forward_loop 0 o3) (snd p4)))))"
  unfolding Let_def iteration_def
  by (simp add: split_beta prod_eq_iff split: flow.splits)

text \<open>
  C5. A remap call that still fails after the retry aborts the pass, is reported, and ends
  the do-while loop.
  \<^item> In the loop of \<^verbatim>\<open>remap_order\<close> at page i, a negative final value of
    \<^verbatim>\<open>ret\<close> makes the function return -1 at once, with only the report added.
  \<^item> A pass that returns a negative value has remapped pages up to some k and none beyond;
    its last two events are the failing call on page k and the report, and the loop body
    breaks without checking the order.
  \<^item> The loop body runs its four passes in turn, and its result is that of the first pass
    that breaks.
  \<^item> The failures that an iteration reports are verification failures, followed by the
    report of the failed call exactly when the iteration breaks.
  \<^item> An iteration that breaks ends the loop at once, whatever \<^verbatim>\<open>keep_stressing\<close>
    would answer, its last event being the report.
  \<^item> The whole chain: when the kernel grants the calls before its n-th and refuses the n-th
    and its retry, and the n-th call falls on page j of pass q of the iteration, then the
    iteration breaks, the loop ends, the kernel has been called n + 2 times (n + 1 on a
    build without \<^verbatim>\<open>mlock\<close>), and the trace ends with the call on page j and the report.
\<close>

theorem failed_remap_is_fatal:
  "(i < N_PAGES \<and> fst (remap_page e order i u) < 0 \<longrightarrow>
      remap_order_loop e order i u =
        (- 1, pr_fail ''remap_file_pages failed'' (snd (remap_page e order i u)))) \<and>
   (fst (remap_order e order t) < 0 \<longrightarrow>
      fst (remap_order e order t) = - 1 \<and>
      (\<exists>k pre. k < N_PAGES \<and>
         trace (snd (remap_order e order t)) =
           trace t @ pre @ [RemapFilePages (DataPage k) 0 (order ! k) 0,
                            PrFail ''remap_file_pages failed''] \<and>
         set (remapped_pages pre) \<subseteq> {..k}) \<and>
      pass e order name t = (Break, snd (remap_order e order t))) \<and>
   (let o1 = reverse_loop 0 (replicate N_PAGES 0);
        p1 = pass e o1 ''reverse'' s;
        r = random_order e o1 (snd p1);
        p2 = pass e (fst r) ''random'' (snd r);
        o3 = all_to_1_loop 0 (fst r);
        p3 = pass e o3 ''all-to-1'' (snd p2);
        p4 = pass e (forward_loop 0 o3) ''forward'' (snd p3)
    in iteration e s =
         (if fst p1 = Break then p1
          else if fst p2 = Break then p2
          else if fst p3 = Break then p3
          else if fst p4 = Break then p4
          else (Continue, inc_counter (illegal_remaps e (forward_loop 0 o3) (snd p4))))) \<and>
   (\<exists>r. failures (trace (snd (iteration e s))) =
          failures (trace s) @ r @
          (if fst (iteration e s) = Break then [''remap_file_pages failed''] else []) \<and>
        set r \<subseteq> {''remap reverse order pages failed'', ''remap random order pages failed'',
                  ''remap all-to-1 order pages failed'', ''remap forward order pages failed''}) \<and>
   (fst (iteration e s) = Break \<longrightarrow>
      stress_loop (Suc fuel) e s = Some (snd (iteration e s)) \<and>
      (\<exists>tr. trace (snd (iteration e s)) = tr @ [PrFail ''remap_file_pages failed''])) \<and>
   (grants_until e n \<and> refuses_at e n \<and> n = n_remap s + q * N_PAGES + j \<and> q < 4 \<and>
    j < N_PAGES \<longrightarrow>
      fst (iteration e s) = Break \<and>
      stress_loop (Suc fuel) e s = Some (snd (iteration e s)) \<and>
      n_remap (snd (iteration e s)) = n + (if have_mlock e then 2 else 1) \<and>
      (\<exists>pre pgoff. trace (snd (iteration e s)) =
         trace s @ pre @ [RemapFilePages (DataPage j) 0 pgoff 0,
                          PrFail ''remap_file_pages failed'']))"
proof (intro conjI)
  show "i < N_PAGES \<and> fst (remap_page e order i u) < 0 \<longrightarrow>
      remap_order_loop e order i u =
        (- 1, pr_fail ''remap_file_pages failed'' (snd (remap_page e order i u)))"
    by (rule impI, erule conjE) (rule remap_order_loop_fail)
next
  show "fst (remap_order e order t) < 0 \<longrightarrow>
      fst (remap_order e order t) = - 1 \<and>
      (\<exists>k pre. k < N_PAGES \<and>
         trace (snd (remap_order e order t)) =
           trace t @ pre @ [RemapFilePages (DataPage k) 0 (order ! k) 0,
                            PrFail ''remap_file_pages failed''] \<and>
         set (remapped_pages pre) \<subseteq> {..k}) \<and>
      pass e order name t = (Break, snd (remap_order e order t))"
    by (rule impI) (rule remap_order_fatal)
next
  show "let o1 = reverse_loop 0 (replicate N_PAGES 0);
        p1 = pass e o1 ''reverse'' s;
        r = random_order e o1 (snd p1);
        p2 = pass e (fst r) ''random'' (snd r);
        o3 = all_to_1_loop 0 (fst r);
        p3 = pass e o3 ''all-to-1'' (snd p2);
        p4 = pass e (forward_loop 0 o3) ''forward'' (snd p3)
    in iteration e s =
         (if fst p1 = Break then p1
          else if fst p2 = Break then p2
          else if fst p3 = Break then p3
          else if fst p4 = Break then p4
          else (Continue, inc_counter (illegal_remaps e (forward_loop 0 o3) (snd p4))))"
    by (rule iteration_passes)
next
  show "\<exists>r. failures (trace (snd (iteration e s))) =
          failures (trace s) @ r @
          (if fst (iteration e s) = Break then [''remap_file_pages failed''] else []) \<and>
        set r \<subseteq> {''remap reverse order pages failed'', ''remap random order pages failed'',
                  ''remap all-to-1 order pages failed'', ''remap forward order pages failed''}"
    by (rule iteration_reports)
next
  show "fst (iteration e s) = Break \<longrightarrow>
      stress_loop (Suc fuel) e s = Some (snd (iteration e s)) \<and>
      (\<exists>tr. trace (snd (iteration e s)) = tr @ [PrFail ''remap_file_pages failed''])"
  proof
    assume b: "fst (iteration e s) = Break"
    then have it: "iteration e s = (Break, snd (iteration e s))"
      by (cases "iteration e s") simp
    from it have "stress_loop (Suc fuel) e s = Some (snd (iteration e s))"
      by (rule stress_loop_break)
    moreover from it
    have "\<exists>tr. trace (snd (iteration e s)) = tr @ [PrFail ''remap_file_pages failed'']"
      by (rule iteration_break_trace)
    ultimately show "stress_loop (Suc fuel) e s = Some (snd (iteration e s)) \<and>
      (\<exists>tr. trace (snd (iteration e s)) = tr @ [PrFail ''remap_file_pages failed''])"
      by (rule conjI)
  qed
next
  show "grants_until e n \<and> refuses_at e n \<and> n = n_remap s + q * N_PAGES + j \<and> q < 4 \<and>
    j < N_PAGES \<longrightarrow>
      fst (iteration e s) = Break \<and>
      stress_loop (Suc fuel) e s = Some (snd (iteration e s)) \<and>
      n_remap (snd (iteration e s)) = n + (if have_mlock e then 2 else 1) \<and>
      (\<exists>pre pgoff. trace (snd (iteration e s)) =
         trace s @ pre @ [RemapFilePages (DataPage j) 0 pgoff 0,
                          PrFail ''remap_file_pages failed''])"
  proof
    assume h: "grants_until e n \<and> refuses_at e n \<and> n = n_remap s + q * N_PAGES + j \<and> q < 4 \<and>
      j < N_PAGES"
    then have g: "grants_until e n" and r: "refuses_at e n"
      and n: "n = n_remap s + q * N_PAGES + j" and q: "q < 4" and j: "j < N_PAGES"
      by blast+
    from iteration_refused[OF g r n q j] obtain s' where
      c: "iteration e s = (Break, s') \<and>
          n_remap s' = n + (if have_mlock e then 2 else 1) \<and>
          (\<exists>pre pgoff. trace s' =
                 trace s @ pre @ [RemapFilePages (DataPage j) 0 pgoff 0,
                                  PrFail ''remap_file_pages failed''])"
      by (elim exE) (rule that)
    from c have it: "iteration e s = (Break, s')" by (rule conjunct1)
    from c[THEN conjunct2] have k: "n_remap s' = n + (if have_mlock e then 2 else 1)"
      by (rule conjunct1)
    from c[THEN conjunct2] have tr: "\<exists>pre pgoff. trace s' =
                 trace s @ pre @ [RemapFilePages (DataPage j) 0 pgoff 0,
                                  PrFail ''remap_file_pages failed'']"
      by (rule conjunct2)
    have "stress_loop (Suc fuel) e s = Some s'" using it by (rule stress_loop_break)
    with k tr show "fst (iteration e s) = Break \<and>
      stress_loop (Suc fuel) e s = Some (snd (iteration e s)) \<and>
      n_remap (snd (iteration e s)) = n + (if have_mlock e then 2 else 1) \<and>
      (\<exists>pre pgoff. trace (snd (iteration e s)) =
         trace s @ pre @ [RemapFilePages (DataPage j) 0 pgoff 0,
                          PrFail ''remap_file_pages failed''])"
      unfolding it by simp
  qed
qed


lemma pass_granted_flow:
  assumes "grants_until e n" "n_remap t + N_PAGES \<le> n"
  shows "fst (pass e order name t) = Continue"
    and "n_remap (snd (pass e order name t)) = n_remap t + N_PAGES"
  using pass_granted[OF assms, of t "[]" order name] by auto

lemma grants_faulty: "grants_until faulty_env (2 * N_PAGES + 5)"
  by (simp add: grants_until_def faulty_env_def)

lemma refuses_faulty: "refuses_at faulty_env (2 * N_PAGES + 5)"
  by (simp add: refuses_at_def faulty_env_def)

text \<open>The hypotheses of C5 hold with a kernel that grants two passes and five pages of
  the third, \<^verbatim>\<open>mlock\<close> succeeding: the all-to-1 pass breaks at page 5, and with it
  the iteration and the loop.\<close>

theorem failed_remap_is_fatal_witness:
  "(let e = faulty_env;
        s = init_loop 0 fresh;
        u = fresh\<lparr>n_remap := 2 * N_PAGES + 5\<rparr>;
        o1 = reverse_loop 0 (replicate N_PAGES 0);
        p1 = pass e o1 ''reverse'' s;
        r = random_order e o1 (snd p1);
        p2 = pass e (fst r) ''random'' (snd r);
        o3 = all_to_1_loop 0 (fst r);
        t = snd p2
    in (5 < N_PAGES \<and> fst (remap_page e o3 5 u) < 0) \<and>
       remap_order_loop e o3 5 u =
         (- 1, pr_fail ''remap_file_pages failed'' (snd (remap_page e o3 5 u))) \<and>
       fst p1 = Continue \<and> fst p2 = Continue \<and> n_remap t = 2 * N_PAGES \<and>
       fst (remap_order e o3 t) < 0 \<and>
       pass e o3 ''all-to-1'' t = (Break, snd (remap_order e o3 t)) \<and>
       iteration e s = pass e o3 ''all-to-1'' t \<and>
       (grants_until e (2 * N_PAGES + 5) \<and> refuses_at e (2 * N_PAGES + 5) \<and>
        2 * N_PAGES + 5 = n_remap s + 2 * N_PAGES + 5 \<and> (2::nat) < 4 \<and> 5 < N_PAGES) \<and>
       fst (iteration e s) = Break \<and>
       stress_loop (Suc 0) e s = Some (snd (iteration e s)) \<and>
       n_remap (snd (iteration e s)) = 2 * N_PAGES + 7 \<and>
       (\<exists>pre pgoff. trace (snd (iteration e s)) =
          trace s @ pre @ [RemapFilePages (DataPage 5) 0 pgoff 0,
                           PrFail ''remap_file_pages failed'']))"
proof -
  let ?e = faulty_env
  let ?s = "init_loop 0 fresh"
  let ?u = "fresh\<lparr>n_remap := 2 * N_PAGES + 5\<rparr>"
  let ?o1 = "reverse_loop 0 (replicate N_PAGES 0)"
  let ?p1 = "pass ?e ?o1 ''reverse'' ?s"
  let ?r = "random_order ?e ?o1 (snd ?p1)"
  let ?p2 = "pass ?e (fst ?r) ''random'' (snd ?r)"
  let ?o3 = "all_to_1_loop 0 (fst ?r)"
  let ?t = "snd ?p2"
  note inst = failed_remap_is_fatal[where e = ?e and s = ?s and i = 5 and order = ?o3
      and t = ?t and u = ?u and name = "''all-to-1''" and fuel = 0
      and n = "2 * N_PAGES + 5" and q = 2 and j = 5]
  note g = grants_faulty and r = refuses_faulty
  have five: "5 < N_PAGES" by (simp add: N_PAGES_def)
  have k0: "n_remap ?s = 0" by (simp add: init_loop_cursors fresh_def)
  have "n_remap ?u = 2 * N_PAGES + 5" by simp
  with r have "refuses_at ?e (n_remap ?u)" by simp
  from remap_page_refused[OF this, of ?o3 5]
  have h1: "5 < N_PAGES \<and> fst (remap_page ?e ?o3 5 ?u) < 0" using five by simp
  have f1: "fst ?p1 = Continue" and k1: "n_remap (snd ?p1) = N_PAGES"
    using pass_granted_flow[OF g, of ?s ?o1 "''reverse''"] k0 by simp_all
  have kr: "n_remap (snd ?r) = N_PAGES" using k1 by (simp add: random_order_log)
  have f2: "fst ?p2 = Continue" and k2: "n_remap ?t = 2 * N_PAGES"
    using pass_granted_flow[OF g, of "snd ?r" "fst ?r" "''random''"] kr by simp_all
  have "fst (remap_order_loop ?e ?o3 0 ?t) = - 1"
    using remap_order_loop_refused[OF g r, of ?t 0 ?o3] k2 five by simp
  then have h2: "fst (remap_order ?e ?o3 ?t) < 0" by (simp add: remap_order_def)
  have h6: "grants_until ?e (2 * N_PAGES + 5) \<and> refuses_at ?e (2 * N_PAGES + 5) \<and>
        2 * N_PAGES + 5 = n_remap ?s + 2 * N_PAGES + 5 \<and> (2::nat) < 4 \<and> 5 < N_PAGES"
    using g r k0 five by simp
  note c1 = inst[THEN conjunct1, THEN mp, OF h1]
  note c2 = inst[THEN conjunct2, THEN conjunct1, THEN mp, OF h2, THEN conjunct2, THEN conjunct2]
  note c3 = inst[THEN conjunct2, THEN conjunct2, THEN conjunct1, unfolded Let_def]
  note c6 = inst[THEN conjunct2, THEN conjunct2, THEN conjunct2, THEN conjunct2, THEN conjunct2,
      THEN mp, OF h6]
  have p3: "fst (pass ?e ?o3 ''all-to-1'' ?t) = Break" using c2 by simp
  have it: "iteration ?e ?s = pass ?e ?o3 ''all-to-1'' ?t"
    using c3 f1 f2 p3 by simp
  have m: "(if have_mlock ?e then 2 else 1) = (2::nat)" by (simp add: faulty_env_def)
  from c6 have e1: "fst (iteration ?e ?s) = Break"
    and e2: "stress_loop (Suc 0) ?e ?s = Some (snd (iteration ?e ?s))"
    and e3: "n_remap (snd (iteration ?e ?s)) = 2 * N_PAGES + 7"
    and e4: "\<exists>pre pgoff. trace (snd (iteration ?e ?s)) =
          trace ?s @ pre @ [RemapFilePages (DataPage 5) 0 pgoff 0,
                           PrFail ''remap_file_pages failed'']"
    unfolding m by simp_all
  from h1 c1 f1 f2 k2 h2 c2 it h6 e1 e2 e3 e4 show ?thesis
    unfolding Let_def by (elim conjE) (intro conjI; assumption)
qed

section \<open>A kernel that misplaces pages\<close>

lemma remap_page_places:
  assumes "places e f"
  shows "fst (remap_page e order i s) = 0"
    and "n_remap (snd (remap_page e order i s)) = Suc (n_remap s)"
    and "backing (snd (remap_page e order i s)) =
           (backing s)(i := f (n_remap s) i (order ! i))"
proof -
  have r: "sys_remap_file_pages e (n_remap s) i (order ! i) =
             (0, Some (f (n_remap s) i (order ! i)))"
    using assms by (simp add: places_def)
  then show "fst (remap_page e order i s) = 0" by (simp add: remap_page_ret)
  from r show "n_remap (snd (remap_page e order i s)) = Suc (n_remap s)"
    by (simp add: remap_page_n_remap)
  from r show "backing (snd (remap_page e order i s)) =
           (backing s)(i := f (n_remap s) i (order ! i))"
    by (simp add: remap_page_defs split_beta)
qed

lemma remap_order_loop_places:
  assumes "places e f"
  shows "fst (remap_order_loop e order i s) = 0 \<and>
         n_remap (snd (remap_order_loop e order i s)) = n_remap s + (N_PAGES - i) \<and>
         (\<forall>j. backing (snd (remap_order_loop e order i s)) j =
                (if i \<le> j \<and> j < N_PAGES then f (n_remap s + (j - i)) j (order ! j)
                 else backing s j))"
proof (induction "N_PAGES - i" arbitrary: i s)
  case 0
  then show ?case by (simp add: remap_order_loop_done)
next
  case (Suc m)
  then have i: "i < N_PAGES" by simp
  let ?s = "snd (remap_page e order i s)"
  note p = remap_page_places[OF assms, of order i s]
  have eq: "remap_order_loop e order i s = remap_order_loop e order (Suc i) ?s"
    using i p(1) by (simp add: remap_order_loop_next)
  from Suc(2) have m: "m = N_PAGES - Suc i" by simp
  note IH = Suc(1)[OF m, of ?s]
  have "\<forall>j. backing (snd (remap_order_loop e order (Suc i) ?s)) j =
                (if i \<le> j \<and> j < N_PAGES then f (n_remap s + (j - i)) j (order ! j)
                 else backing s j)"
  proof
    fix j
    from IH have b: "backing (snd (remap_order_loop e order (Suc i) ?s)) j =
                (if Suc i \<le> j \<and> j < N_PAGES then f (n_remap ?s + (j - Suc i)) j (order ! j)
                 else backing ?s j)" by simp
    show "backing (snd (remap_order_loop e order (Suc i) ?s)) j =
                (if i \<le> j \<and> j < N_PAGES then f (n_remap s + (j - i)) j (order ! j)
                 else backing s j)"
    proof (cases "j = i")
      case True
      with b i p show ?thesis by simp
    next
      case False
      then have "Suc i \<le> j \<longleftrightarrow> i \<le> j" by auto
      moreover have "Suc i \<le> j \<Longrightarrow> Suc (n_remap s) + (j - Suc i) = n_remap s + (j - i)"
        by simp
      ultimately show ?thesis using b p False by auto
    qed
  qed
  with IH i p(2) show ?case unfolding eq by simp
qed

lemma pass_places:
  assumes pl: "places e f" and t: "tags_intact s" and b: "\<forall>i<N_PAGES. order ! i < N_PAGES"
  shows "fst (pass e order name s) = Continue"
    and "n_remap (snd (pass e order name s)) = n_remap s + N_PAGES"
    and "n_rand (snd (pass e order name s)) = n_rand s"
    and "n_keep (snd (pass e order name s)) = n_keep s"
    and "tags_intact (snd (pass e order name s))"
    and "\<forall>i<N_PAGES. unat (tag_at (snd (pass e order name s)) i) = f (n_remap s + i) i (order ! i)"
    and "failures (trace (snd (pass e order name s))) =
           failures (trace s) @
           (if misplaced f (n_remap s) order
            then [''remap '' @ name @ '' order pages failed''] else [])"
proof -
  let ?r = "remap_order e order s"
  let ?t = "snd ?r"
  note l = remap_order_loop_places[OF pl, of order 0 s]
  from l have z: "fst ?r = 0" by (simp add: remap_order_def)
  from l have k: "n_remap ?t = n_remap s + N_PAGES" by (simp add: remap_order_def)
  from l have bk: "\<And>j. j < N_PAGES \<Longrightarrow> backing ?t j = f (n_remap s + j) j (order ! j)"
    by (simp add: remap_order_def)
  have sl: "slot0 ?t = slot0 s" by (simp add: remap_order_def remap_order_loop_slot0)
  have tg: "unat (tag_at ?t i) = f (n_remap s + i) i (order ! i)" if "i < N_PAGES" for i
  proof -
    from that b have "order ! i < N_PAGES" by simp
    with pl have lt: "f (n_remap s + i) i (order ! i) < N_PAGES" by (simp add: places_def)
    with t have "slot0 s (f (n_remap s + i) i (order ! i)) =
                 word_of_nat (f (n_remap s + i) i (order ! i))"
      by (simp add: tags_intact_def)
    then show ?thesis using that lt by (simp add: tag_at_def bk sl unat_tag)
  qed
  have p: "pass e order name s = (Continue, check_order order name ?t)"
    using z by (simp add: pass_def split_beta)
  have mis: "(\<exists>i<N_PAGES. unat (tag_at ?t i) \<noteq> order ! i) \<longleftrightarrow> misplaced f (n_remap s) order"
    unfolding misplaced_def using tg by auto
  have ft: "failures (trace ?t) = failures (trace s)"
    using z remap_order_loop_failures[of e order 0 s] by (simp add: remap_order_def)
  show "fst (pass e order name s) = Continue" using p by simp
  show "n_remap (snd (pass e order name s)) = n_remap s + N_PAGES" using p k by simp
  show "n_rand (snd (pass e order name s)) = n_rand s"
    using p remap_order_loop_cursors[of e order 0 s] by (simp add: remap_order_def)
  show "n_keep (snd (pass e order name s)) = n_keep s"
    using p remap_order_loop_cursors[of e order 0 s] by (simp add: remap_order_def)
  show "tags_intact (snd (pass e order name s))"
    using p t sl by (simp add: tags_intact_def)
  show "\<forall>i<N_PAGES. unat (tag_at (snd (pass e order name s)) i) =
          f (n_remap s + i) i (order ! i)"
    using p tg by (simp add: tag_at_def)
  show "failures (trace (snd (pass e order name s))) =
           failures (trace s) @
           (if misplaced f (n_remap s) order
            then [''remap '' @ name @ '' order pages failed''] else [])"
    unfolding p snd_conv check_order_eq mis using ft by (simp add: pr_fail_def emit_def)
qed

lemma pass_cursors:
  "n_keep (snd (pass e order name s)) = n_keep s"
  "n_rand (snd (pass e order name s)) = n_rand s"
  using remap_order_loop_cursors[of e order 0 s]
  by (simp_all add: pass_def split_beta remap_order_def)

lemma illegal_remaps_store [simp]:
  "backing (illegal_remaps e order s) = backing s"
  "slot0 (illegal_remaps e order s) = slot0 s"
  "n_keep (illegal_remaps e order s) = n_keep s"
  "n_remap (illegal_remaps e order s) = n_remap s"
  "n_time (illegal_remaps e order s) = n_time s"
  by (simp_all add: illegal_remaps_def emit_def)

lemma inc_counter_store [simp]:
  "backing (inc_counter s) = backing s"
  "slot0 (inc_counter s) = slot0 s"
  "n_keep (inc_counter s) = n_keep s"
  "n_remap (inc_counter s) = n_remap s"
  "n_time (inc_counter s) = n_time s"
  by (simp_all add: inc_counter_def emit_def)

lemma illegal_remaps_failures:
  "failures (trace (inc_counter (illegal_remaps e order s))) = failures (trace s)"
  by (simp add: illegal_remaps_def emit_def inc_counter_def Let_def)

lemma iteration_n_keep: "n_keep (snd (iteration e s)) = n_keep s"
  using iteration_passes[of e s] unfolding Let_def
  by (simp add: pass_cursors random_order_log split: if_splits)

lemma stress_loop_continue:
  assumes "fst (iteration e s) = Continue"
  shows "stress_loop (Suc fuel) e s =
           (if keep_stressing e (n_keep s)
            then stress_loop fuel e ((snd (iteration e s))\<lparr>n_keep := Suc (n_keep s)\<rparr>)
            else Some ((snd (iteration e s))\<lparr>n_keep := Suc (n_keep s)\<rparr>))"
  using assms iteration_n_keep[of e s] by (cases "iteration e s") simp

lemma random_order_fst:
  assumes "length order = N_PAGES" "length order' = N_PAGES" "n_rand s = n_rand s'"
  shows "fst (random_order e order s) = fst (random_order e order' s')"
  using assms by (simp add: random_order_def forward_loop_upt)

lemma iteration_places:
  assumes pl: "places e f" and t: "tags_intact s" and d: "\<forall>k. mwc32modn e k < N_PAGES"
  shows "fst (iteration e s) = Continue"
    and "failures (trace (snd (iteration e s))) =
           failures (trace s) @
           (if misplaced f (n_remap s) (rev [0..<N_PAGES])
            then [''remap reverse order pages failed''] else []) @
           (if misplaced f (n_remap s + N_PAGES) (fst (random_order e (rev [0..<N_PAGES]) s))
            then [''remap random order pages failed''] else []) @
           (if misplaced f (n_remap s + 2 * N_PAGES) (replicate N_PAGES 0)
            then [''remap all-to-1 order pages failed''] else []) @
           (if misplaced f (n_remap s + 3 * N_PAGES) [0..<N_PAGES]
            then [''remap forward order pages failed''] else [])"
    and "\<forall>i<N_PAGES. unat (tag_at (snd (iteration e s)) i) = f (n_remap s + 3 * N_PAGES + i) i i"
proof -
  let ?o1 = "reverse_loop 0 (replicate N_PAGES 0)"
  let ?p1 = "pass e ?o1 ''reverse'' s"
  let ?r = "random_order e ?o1 (snd ?p1)"
  let ?o2 = "fst ?r"
  let ?p2 = "pass e ?o2 ''random'' (snd ?r)"
  let ?o3 = "all_to_1_loop 0 ?o2"
  let ?p3 = "pass e ?o3 ''all-to-1'' (snd ?p2)"
  let ?o4 = "forward_loop 0 ?o3"
  let ?p4 = "pass e ?o4 ''forward'' (snd ?p3)"
  have o1: "?o1 = rev [0..<N_PAGES]" by (rule reverse_loop_rev) simp
  have l1: "length ?o1 = N_PAGES" by (simp add: length_reverse_loop)
  have b1: "\<forall>i<N_PAGES. ?o1 ! i < N_PAGES" by (rule order_bounds(1)) simp
  note q1 = pass_places[OF pl t b1, of "''reverse''"]
  have perm: "is_permutation ?o2" using l1 d by (rule random_order_permutation)
  have l2: "length ?o2 = N_PAGES" using perm by (rule is_permutation_length)
  have b2: "\<forall>i<N_PAGES. ?o2 ! i < N_PAGES" using perm by (rule is_permutation_bounds)
  have o2: "?o2 = fst (random_order e (rev [0..<N_PAGES]) s)"
    by (rule random_order_fst) (simp_all add: l1 q1(3))
  have t1: "tags_intact (snd ?r)" using q1(5) by (simp add: random_order_fields)
  have k1: "n_remap (snd ?r) = n_remap s + N_PAGES" using q1(2) by (simp add: random_order_log)
  have f1: "failures (trace (snd ?r)) = failures (trace (snd ?p1))"
    by (simp add: random_order_log)
  note q2 = pass_places[OF pl t1 b2, of "''random''"]
  have o3: "?o3 = replicate N_PAGES 0" using l2 by (rule all_to_1_loop_replicate)
  have l3: "length ?o3 = N_PAGES" using l2 by (simp add: length_all_to_1_loop)
  have b3: "\<forall>i<N_PAGES. ?o3 ! i < N_PAGES" using l2 by (rule order_bounds(3))
  note q3 = pass_places[OF pl q2(5) b3, of "''all-to-1''"]
  have o4: "?o4 = [0..<N_PAGES]" using l3 by (rule forward_loop_upt)
  have b4: "\<forall>i<N_PAGES. ?o4 ! i < N_PAGES" using l3 by (rule order_bounds(2))
  note q4 = pass_places[OF pl q3(5) b4, of "''forward''"]
  have it: "iteration e s = (Continue, inc_counter (illegal_remaps e ?o4 (snd ?p4)))"
    using iteration_passes[of e s] q1(1) q2(1) q3(1) q4(1) unfolding Let_def by simp
  show "fst (iteration e s) = Continue" unfolding it by simp
  have k2: "n_remap (snd ?p2) = n_remap s + 2 * N_PAGES" using q2(2) k1 by simp
  have k3: "n_remap (snd ?p3) = n_remap s + 3 * N_PAGES" using q3(2) k2 by simp
  have "\<forall>i<N_PAGES. unat (tag_at (snd ?p4) i) = f (n_remap s + 3 * N_PAGES + i) i i"
    using q4(6) unfolding o4 k3 by simp
  then show "\<forall>i<N_PAGES. unat (tag_at (snd (iteration e s)) i) =
               f (n_remap s + 3 * N_PAGES + i) i i"
    unfolding it by (simp add: tag_at_def)
  have n1: "''remap '' @ ''reverse'' @ '' order pages failed'' = ''remap reverse order pages failed''"
    and n2: "''remap '' @ ''random'' @ '' order pages failed'' = ''remap random order pages failed''"
    and n3: "''remap '' @ ''all-to-1'' @ '' order pages failed'' =
             ''remap all-to-1 order pages failed''"
    and n4: "''remap '' @ ''forward'' @ '' order pages failed'' = ''remap forward order pages failed''"
    by (simp_all only: append_Cons append_Nil)
  let ?A1 = "if misplaced f (n_remap s) (rev [0..<N_PAGES])
            then [''remap reverse order pages failed''] else []"
  let ?A2 = "if misplaced f (n_remap s + N_PAGES) (fst (random_order e (rev [0..<N_PAGES]) s))
            then [''remap random order pages failed''] else []"
  let ?A3 = "if misplaced f (n_remap s + 2 * N_PAGES) (replicate N_PAGES 0)
            then [''remap all-to-1 order pages failed''] else []"
  let ?A4 = "if misplaced f (n_remap s + 3 * N_PAGES) [0..<N_PAGES]
            then [''remap forward order pages failed''] else []"
  have a1: "failures (trace (snd ?p1)) = failures (trace s) @ ?A1"
    using q1(7) unfolding n1 by (simp only: o1)
  have a2: "failures (trace (snd ?p2)) = failures (trace (snd ?r)) @ ?A2"
    using q2(7) unfolding n2 k1 by (simp only: o2)
  have a3: "failures (trace (snd ?p3)) = failures (trace (snd ?p2)) @ ?A3"
    using q3(7) unfolding n3 k2 by (simp only: o3)
  have a4: "failures (trace (snd ?p4)) = failures (trace (snd ?p3)) @ ?A4"
    using q4(7) unfolding n4 k3 by (simp only: o4)
  have "failures (trace (snd (iteration e s))) = failures (trace (snd ?p4))"
    unfolding it snd_conv by (rule illegal_remaps_failures)
  also have "\<dots> = (((failures (trace s) @ ?A1) @ ?A2) @ ?A3) @ ?A4"
    by (simp only: a4 a3 a2 f1 a1)
  finally show "failures (trace (snd (iteration e s))) =
           failures (trace s) @ ?A1 @ ?A2 @ ?A3 @ ?A4"
    by (simp only: append_assoc)
qed

lemma iteration_places_passes:
  assumes pl: "places e f" and t: "tags_intact s" and d: "\<forall>k. mwc32modn e k < N_PAGES"
  shows "(let o1 = reverse_loop 0 (replicate N_PAGES 0);
              p1 = pass e o1 ''reverse'' s;
              r = random_order e o1 (snd p1);
              p2 = pass e (fst r) ''random'' (snd r);
              o3 = all_to_1_loop 0 (fst r);
              p3 = pass e o3 ''all-to-1'' (snd p2);
              o4 = forward_loop 0 o3;
              p4 = pass e o4 ''forward'' (snd p3)
          in (\<forall>i<N_PAGES. unat (tag_at (snd p1) i) = f (n_remap s + i) i (o1 ! i)) \<and>
             (\<forall>i<N_PAGES. unat (tag_at (snd p2) i) = f (n_remap s + N_PAGES + i) i (fst r ! i)) \<and>
             (\<forall>i<N_PAGES. unat (tag_at (snd p3) i) = f (n_remap s + 2 * N_PAGES + i) i (o3 ! i)) \<and>
             (\<forall>i<N_PAGES. unat (tag_at (snd p4) i) = f (n_remap s + 3 * N_PAGES + i) i (o4 ! i)) \<and>
             iteration e s = (Continue, inc_counter (illegal_remaps e o4 (snd p4))))"
proof -
  let ?o1 = "reverse_loop 0 (replicate N_PAGES 0)"
  let ?p1 = "pass e ?o1 ''reverse'' s"
  let ?r = "random_order e ?o1 (snd ?p1)"
  let ?o2 = "fst ?r"
  let ?p2 = "pass e ?o2 ''random'' (snd ?r)"
  let ?o3 = "all_to_1_loop 0 ?o2"
  let ?p3 = "pass e ?o3 ''all-to-1'' (snd ?p2)"
  let ?o4 = "forward_loop 0 ?o3"
  let ?p4 = "pass e ?o4 ''forward'' (snd ?p3)"
  have l1: "length ?o1 = N_PAGES" by (simp add: length_reverse_loop)
  have b1: "\<forall>i<N_PAGES. ?o1 ! i < N_PAGES" by (rule order_bounds(1)) simp
  note q1 = pass_places[OF pl t b1, of "''reverse''"]
  have perm: "is_permutation ?o2" using l1 d by (rule random_order_permutation)
  have l2: "length ?o2 = N_PAGES" using perm by (rule is_permutation_length)
  have b2: "\<forall>i<N_PAGES. ?o2 ! i < N_PAGES" using perm by (rule is_permutation_bounds)
  have t1: "tags_intact (snd ?r)" using q1(5) by (simp add: random_order_fields)
  have k1: "n_remap (snd ?r) = n_remap s + N_PAGES" using q1(2) by (simp add: random_order_log)
  note q2 = pass_places[OF pl t1 b2, of "''random''"]
  have l3: "length ?o3 = N_PAGES" using l2 by (simp add: length_all_to_1_loop)
  have b3: "\<forall>i<N_PAGES. ?o3 ! i < N_PAGES" using l2 by (rule order_bounds(3))
  note q3 = pass_places[OF pl q2(5) b3, of "''all-to-1''"]
  have b4: "\<forall>i<N_PAGES. ?o4 ! i < N_PAGES" using l3 by (rule order_bounds(2))
  note q4 = pass_places[OF pl q3(5) b4, of "''forward''"]
  have k2: "n_remap (snd ?p2) = n_remap s + 2 * N_PAGES" using q2(2) k1 by simp
  have k3: "n_remap (snd ?p3) = n_remap s + 3 * N_PAGES" using q3(2) k2 by simp
  have it: "iteration e s = (Continue, inc_counter (illegal_remaps e ?o4 (snd ?p4)))"
    using iteration_passes[of e s] q1(1) q2(1) q3(1) q4(1) unfolding Let_def by simp
  from q1(6) q2(6)[unfolded k1] q3(6)[unfolded k2] q4(6)[unfolded k3] it
  show ?thesis unfolding Let_def by (intro conjI)
qed

lemma places_misplacing:
  "places misplacing_env
     (\<lambda>k i pgoff. if k = N_PAGES + 7 then (pgoff + 1) mod N_PAGES else pgoff)"
  by (simp add: places_def misplacing_env_def zero_less_N_PAGES)

lemma misplacing_shifts: "(p + 1) mod N_PAGES \<noteq> p"
proof
  assume eq: "(p + 1) mod N_PAGES = p"
  have "(p + 1) mod N_PAGES < N_PAGES" using zero_less_N_PAGES by simp
  with eq have lt: "p < N_PAGES" by simp
  show False
  proof (cases "p + 1 < N_PAGES")
    case True
    with eq show False by simp
  next
    case False
    with lt have n: "p + 1 = N_PAGES" by simp
    then have "(p + 1) mod N_PAGES = 0" by simp
    with eq n one_less_N_PAGES show False by simp
  qed
qed

lemma misplaced_misplacing:
  "\<not> misplaced (\<lambda>k i pgoff. if k = N_PAGES + 7 then (pgoff + 1) mod N_PAGES else pgoff) 0 order"
  "misplaced (\<lambda>k i pgoff. if k = N_PAGES + 7 then (pgoff + 1) mod N_PAGES else pgoff) N_PAGES order"
  "\<not> misplaced (\<lambda>k i pgoff. if k = N_PAGES + 7 then (pgoff + 1) mod N_PAGES else pgoff)
       (2 * N_PAGES) order"
  "\<not> misplaced (\<lambda>k i pgoff. if k = N_PAGES + 7 then (pgoff + 1) mod N_PAGES else pgoff)
       (3 * N_PAGES) order"
proof -
  have seven: "7 < N_PAGES" by (simp add: N_PAGES_def)
  show "\<not> misplaced (\<lambda>k i pgoff. if k = N_PAGES + 7 then (pgoff + 1) mod N_PAGES else pgoff) 0 order"
    by (simp add: misplaced_def)
  show "misplaced (\<lambda>k i pgoff. if k = N_PAGES + 7 then (pgoff + 1) mod N_PAGES else pgoff)
         N_PAGES order"
    unfolding misplaced_def using seven misplacing_shifts[of "order ! 7"]
    by (intro exI[where x = 7]) simp
  show "\<not> misplaced (\<lambda>k i pgoff. if k = N_PAGES + 7 then (pgoff + 1) mod N_PAGES else pgoff)
       (2 * N_PAGES) order"
    using seven by (simp add: misplaced_def)
  show "\<not> misplaced (\<lambda>k i pgoff. if k = N_PAGES + 7 then (pgoff + 1) mod N_PAGES else pgoff)
       (3 * N_PAGES) order"
    using seven by (simp add: misplaced_def)
qed

text \<open>
  C1. The passes of an iteration are verified, and a verification failure does not stop
  the loop.
  \<^item> With a kernel that does what \<^verbatim>\<open>remap_file_pages\<close> promises, and the tags as the
    set-up wrote them, after a successful pass with an order whose entries are page
    indices the tag read at every virtual page i is \<open>order ! i\<close>; so an iteration reports
    no failure but that of a remap call.
  \<^item> Whatever the kernel did, \<^verbatim>\<open>check_order\<close> reports a failure exactly when some page
    reads back a tag other than \<open>order ! i\<close>; a pass that did not fail is followed by the
    check, and the loop body continues: it runs its four passes in turn, up to the first
    whose remap call fails, and the report of a check never ends it.
  \<^item> In the loop body, with a kernel that returns 0 to every call and backs page i with the
    object page \<open>f k i pgoff\<close> at its k-th call: after each of the four passes (reverse,
    random, all-to-1, forward) the tag read at page i is the page that the kernel
    installed for it in that pass; the iteration reports, pass by pass and in this order,
    a verification failure exactly for the passes in which some page was not backed by
    \<open>order ! i\<close>; it runs to its end whatever it reported, and the loop then asks
    \<^verbatim>\<open>keep_stressing\<close> and goes on with the next iteration when the answer is true.
\<close>

theorem passes_are_verified:
  "(conforming e \<and> tags_intact t \<and> (\<forall>i<N_PAGES. order ! i < N_PAGES) \<and>
    \<not> fst (remap_order e order t) < 0 \<longrightarrow>
      (\<forall>i<N_PAGES. unat (tag_at (snd (remap_order e order t)) i) = order ! i)) \<and>
   (conforming e \<and> tags_intact s \<and> (\<forall>k. mwc32modn e k < N_PAGES) \<longrightarrow>
      failures (trace (snd (iteration e s))) =
        failures (trace s) @
        (if fst (iteration e s) = Break then [''remap_file_pages failed''] else [])) \<and>
   check_order order name u =
     (if \<exists>i<N_PAGES. unat (tag_at u i) \<noteq> order ! i
      then pr_fail (''remap '' @ name @ '' order pages failed'') u else u) \<and>
   (\<not> fst (remap_order e order t) < 0 \<longrightarrow>
      pass e order name t = (Continue, check_order order name (snd (remap_order e order t)))) \<and>
   ((\<forall>k i pgoff. fst (sys_remap_file_pages e k i pgoff) = 0) \<longrightarrow>
      fst (iteration e s) = Continue) \<and>
   (places e f \<and> tags_intact s \<and> (\<forall>k. mwc32modn e k < N_PAGES) \<longrightarrow>
      (let o1 = reverse_loop 0 (replicate N_PAGES 0);
            p1 = pass e o1 ''reverse'' s;
            r = random_order e o1 (snd p1);
            p2 = pass e (fst r) ''random'' (snd r);
            o3 = all_to_1_loop 0 (fst r);
            p3 = pass e o3 ''all-to-1'' (snd p2);
            o4 = forward_loop 0 o3;
            p4 = pass e o4 ''forward'' (snd p3)
        in (\<forall>i<N_PAGES. unat (tag_at (snd p1) i) = f (n_remap s + i) i (o1 ! i)) \<and>
           (\<forall>i<N_PAGES. unat (tag_at (snd p2) i) = f (n_remap s + N_PAGES + i) i (fst r ! i)) \<and>
           (\<forall>i<N_PAGES. unat (tag_at (snd p3) i) = f (n_remap s + 2 * N_PAGES + i) i (o3 ! i)) \<and>
           (\<forall>i<N_PAGES. unat (tag_at (snd p4) i) = f (n_remap s + 3 * N_PAGES + i) i (o4 ! i)) \<and>
           iteration e s = (Continue, inc_counter (illegal_remaps e o4 (snd p4)))) \<and>
      failures (trace (snd (iteration e s))) =
        failures (trace s) @
        (if misplaced f (n_remap s) (rev [0..<N_PAGES])
         then [''remap reverse order pages failed''] else []) @
        (if misplaced f (n_remap s + N_PAGES) (fst (random_order e (rev [0..<N_PAGES]) s))
         then [''remap random order pages failed''] else []) @
        (if misplaced f (n_remap s + 2 * N_PAGES) (replicate N_PAGES 0)
         then [''remap all-to-1 order pages failed''] else []) @
        (if misplaced f (n_remap s + 3 * N_PAGES) [0..<N_PAGES]
         then [''remap forward order pages failed''] else []) \<and>
      (\<forall>i<N_PAGES. unat (tag_at (snd (iteration e s)) i) = f (n_remap s + 3 * N_PAGES + i) i i) \<and>
      stress_loop (Suc fuel) e s =
        (if keep_stressing e (n_keep s)
         then stress_loop fuel e ((snd (iteration e s))\<lparr>n_keep := Suc (n_keep s)\<rparr>)
         else Some ((snd (iteration e s))\<lparr>n_keep := Suc (n_keep s)\<rparr>))) \<and>
   (let o1 = reverse_loop 0 (replicate N_PAGES 0);
        p1 = pass e o1 ''reverse'' s;
        r = random_order e o1 (snd p1);
        p2 = pass e (fst r) ''random'' (snd r);
        o3 = all_to_1_loop 0 (fst r);
        p3 = pass e o3 ''all-to-1'' (snd p2);
        p4 = pass e (forward_loop 0 o3) ''forward'' (snd p3)
    in iteration e s =
         (if fst p1 = Break then p1
          else if fst p2 = Break then p2
          else if fst p3 = Break then p3
          else if fst p4 = Break then p4
          else (Continue, inc_counter (illegal_remaps e (forward_loop 0 o3) (snd p4)))))"
proof (intro conjI impI)
  assume "conforming e \<and> tags_intact t \<and> (\<forall>i<N_PAGES. order ! i < N_PAGES) \<and>
    \<not> fst (remap_order e order t) < 0"
  then show "\<forall>i<N_PAGES. unat (tag_at (snd (remap_order e order t)) i) = order ! i"
    by (simp add: remap_order_tags)
next
  assume "conforming e \<and> tags_intact s \<and> (\<forall>k. mwc32modn e k < N_PAGES)"
  then have "conforming e" "tags_intact s" "\<forall>k. mwc32modn e k < N_PAGES" by simp_all
  then show "failures (trace (snd (iteration e s))) =
        failures (trace s) @
        (if fst (iteration e s) = Break then [''remap_file_pages failed''] else [])"
    by (rule iteration_conforming)
next
  show "check_order order name u =
     (if \<exists>i<N_PAGES. unat (tag_at u i) \<noteq> order ! i
      then pr_fail (''remap '' @ name @ '' order pages failed'') u else u)"
    by (rule check_order_eq)
next
  assume "\<not> fst (remap_order e order t) < 0"
  then show "pass e order name t = (Continue, check_order order name (snd (remap_order e order t)))"
    by (simp add: pass_def split_beta)
next
  assume "\<forall>k i pgoff. fst (sys_remap_file_pages e k i pgoff) = 0"
  then show "fst (iteration e s) = Continue" by (rule iteration_all_succeed)
next
  assume "places e f \<and> tags_intact s \<and> (\<forall>k. mwc32modn e k < N_PAGES)"
  then have h: "places e f" "tags_intact s" "\<forall>k. mwc32modn e k < N_PAGES" by simp_all
  from h show "let o1 = reverse_loop 0 (replicate N_PAGES 0);
            p1 = pass e o1 ''reverse'' s;
            r = random_order e o1 (snd p1);
            p2 = pass e (fst r) ''random'' (snd r);
            o3 = all_to_1_loop 0 (fst r);
            p3 = pass e o3 ''all-to-1'' (snd p2);
            o4 = forward_loop 0 o3;
            p4 = pass e o4 ''forward'' (snd p3)
        in (\<forall>i<N_PAGES. unat (tag_at (snd p1) i) = f (n_remap s + i) i (o1 ! i)) \<and>
           (\<forall>i<N_PAGES. unat (tag_at (snd p2) i) = f (n_remap s + N_PAGES + i) i (fst r ! i)) \<and>
           (\<forall>i<N_PAGES. unat (tag_at (snd p3) i) = f (n_remap s + 2 * N_PAGES + i) i (o3 ! i)) \<and>
           (\<forall>i<N_PAGES. unat (tag_at (snd p4) i) = f (n_remap s + 3 * N_PAGES + i) i (o4 ! i)) \<and>
           iteration e s = (Continue, inc_counter (illegal_remaps e o4 (snd p4)))"
    by (rule iteration_places_passes)
  from h show "failures (trace (snd (iteration e s))) =
        failures (trace s) @
        (if misplaced f (n_remap s) (rev [0..<N_PAGES])
         then [''remap reverse order pages failed''] else []) @
        (if misplaced f (n_remap s + N_PAGES) (fst (random_order e (rev [0..<N_PAGES]) s))
         then [''remap random order pages failed''] else []) @
        (if misplaced f (n_remap s + 2 * N_PAGES) (replicate N_PAGES 0)
         then [''remap all-to-1 order pages failed''] else []) @
        (if misplaced f (n_remap s + 3 * N_PAGES) [0..<N_PAGES]
         then [''remap forward order pages failed''] else [])"
    by (rule iteration_places(2))
  from h show "\<forall>i<N_PAGES. unat (tag_at (snd (iteration e s)) i) = f (n_remap s + 3 * N_PAGES + i) i i"
    by (rule iteration_places(3))
  from h have "fst (iteration e s) = Continue" by (rule iteration_places(1))
  then show "stress_loop (Suc fuel) e s =
        (if keep_stressing e (n_keep s)
         then stress_loop fuel e ((snd (iteration e s))\<lparr>n_keep := Suc (n_keep s)\<rparr>)
         else Some ((snd (iteration e s))\<lparr>n_keep := Suc (n_keep s)\<rparr>))"
    by (rule stress_loop_continue)
next
  show "let o1 = reverse_loop 0 (replicate N_PAGES 0);
        p1 = pass e o1 ''reverse'' s;
        r = random_order e o1 (snd p1);
        p2 = pass e (fst r) ''random'' (snd r);
        o3 = all_to_1_loop 0 (fst r);
        p3 = pass e o3 ''all-to-1'' (snd p2);
        p4 = pass e (forward_loop 0 o3) ''forward'' (snd p3)
    in iteration e s =
         (if fst p1 = Break then p1
          else if fst p2 = Break then p2
          else if fst p3 = Break then p3
          else if fst p4 = Break then p4
          else (Continue, inc_counter (illegal_remaps e (forward_loop 0 o3) (snd p4))))"
    by (rule iteration_passes)
qed


lemma misplacing_env_simps [simp]:
  "mwc32modn misplacing_env k = mwc32modn ideal_env k"
  "keep_stressing misplacing_env k \<longleftrightarrow> k = 0"
  "fst (sys_remap_file_pages misplacing_env k i pgoff) = 0"
  by (simp_all add: misplacing_env_def)

text \<open>The hypotheses of C1 hold with a kernel that grants every call as asked, where an
  iteration reports nothing; and with a kernel that misplaces page 7 in the random pass,
  where the tag read back at page 7 differs from the order, the iteration reports the
  failure of the random pass and no other, and the loop goes on to a second iteration.\<close>

theorem passes_are_verified_witness:
  "(conforming ideal_env \<and> tags_intact (init_loop 0 fresh) \<and>
    \<not> fst (remap_order ideal_env (reverse_loop 0 (replicate N_PAGES 0)) (init_loop 0 fresh)) < 0 \<and>
    unat (tag_at (snd (remap_order ideal_env (reverse_loop 0 (replicate N_PAGES 0))
                         (init_loop 0 fresh))) 5) = 506 \<and>
    failures (trace (snd (iteration ideal_env (init_loop 0 fresh)))) = [] \<and>
    pass ideal_env (reverse_loop 0 (replicate N_PAGES 0)) ''reverse'' (init_loop 0 fresh) =
      (Continue,
       check_order (reverse_loop 0 (replicate N_PAGES 0)) ''reverse''
         (snd (remap_order ideal_env (reverse_loop 0 (replicate N_PAGES 0)) (init_loop 0 fresh)))) \<and>
    fst (iteration ideal_env (init_loop 0 fresh)) = Continue) \<and>
   (places misplacing_env
      (\<lambda>k i pgoff. if k = N_PAGES + 7 then (pgoff + 1) mod N_PAGES else pgoff) \<and>
    (\<forall>k. mwc32modn misplacing_env k < N_PAGES) \<and>
    (let e = misplacing_env;
         s = init_loop 0 fresh;
         o1 = reverse_loop 0 (replicate N_PAGES 0);
         p1 = pass e o1 ''reverse'' s;
         r = random_order e o1 (snd p1);
         p2 = pass e (fst r) ''random'' (snd r)
     in unat (tag_at (snd p2) 7) = (fst r ! 7 + 1) mod N_PAGES \<and>
        unat (tag_at (snd p2) 7) \<noteq> fst r ! 7) \<and>
    failures (trace (snd (iteration misplacing_env (init_loop 0 fresh)))) =
      [''remap random order pages failed''] \<and>
    fst (iteration misplacing_env (init_loop 0 fresh)) = Continue \<and>
    keep_stressing misplacing_env (n_keep (init_loop 0 fresh)) \<and>
    stress_loop (Suc (Suc 0)) misplacing_env (init_loop 0 fresh) =
      stress_loop (Suc 0) misplacing_env
        ((snd (iteration misplacing_env (init_loop 0 fresh)))
           \<lparr>n_keep := Suc (n_keep (init_loop 0 fresh))\<rparr>))"
proof (rule conjI)
  let ?o = "reverse_loop 0 (replicate N_PAGES 0)"
  let ?s = "init_loop 0 fresh"
  note inst = passes_are_verified[where e = ideal_env and s = ?s and t = ?s and order = ?o
      and name = "''reverse''"]
  have ok: "\<forall>k i pgoff. fst (sys_remap_file_pages ideal_env k i pgoff) = 0" by simp
  have r: "\<not> fst (remap_order ideal_env ?o ?s) < 0"
    by (simp add: remap_order_def remap_order_loop_succeeds[OF ok])
  have b: "\<forall>i<N_PAGES. ?o ! i < N_PAGES"
    using zero_less_N_PAGES by (auto simp: nth_reverse_loop)
  have h: "conforming ideal_env \<and> tags_intact ?s \<and> (\<forall>i<N_PAGES. ?o ! i < N_PAGES) \<and>
           \<not> fst (remap_order ideal_env ?o ?s) < 0"
    using conforming_ideal tags_intact_init b r by (intro conjI)
  have h2: "conforming ideal_env \<and> tags_intact ?s \<and> (\<forall>k. mwc32modn ideal_env k < N_PAGES)"
    using conforming_ideal tags_intact_init mwc32modn_ideal by simp
  have five: "5 < N_PAGES" unfolding N_PAGES_def by simp
  have v: "?o ! 5 = 506"
    using five by (simp add: nth_reverse_loop) (simp add: N_PAGES_def)
  note c1 = inst[THEN conjunct1, THEN mp, OF h, THEN spec, THEN mp, OF five]
  note c2 = inst[THEN conjunct2, THEN conjunct1, THEN mp, OF h2]
  note c4 = inst[THEN conjunct2, THEN conjunct2, THEN conjunct2, THEN conjunct1, THEN mp, OF r]
  note c5 = inst[THEN conjunct2, THEN conjunct2, THEN conjunct2, THEN conjunct2, THEN conjunct1,
      THEN mp, OF ok]
  have "failures (trace (snd (iteration ideal_env ?s))) = []"
    using c2 c5 by (simp add: init_loop_fields fresh_def)
  with conforming_ideal tags_intact_init r c1 v c4 c5
  show "conforming ideal_env \<and> tags_intact ?s \<and>
    \<not> fst (remap_order ideal_env ?o ?s) < 0 \<and>
    unat (tag_at (snd (remap_order ideal_env ?o ?s)) 5) = 506 \<and>
    failures (trace (snd (iteration ideal_env ?s))) = [] \<and>
    pass ideal_env ?o ''reverse'' ?s =
      (Continue, check_order ?o ''reverse'' (snd (remap_order ideal_env ?o ?s))) \<and>
    fst (iteration ideal_env ?s) = Continue"
    by simp
next
  let ?e = misplacing_env
  let ?s = "init_loop 0 fresh"
  let ?F = "\<lambda>k i pgoff. if k = N_PAGES + 7 then (pgoff + 1) mod N_PAGES else pgoff"
  let ?o1 = "reverse_loop 0 (replicate N_PAGES 0)"
  let ?p1 = "pass ?e ?o1 ''reverse'' ?s"
  let ?r = "random_order ?e ?o1 (snd ?p1)"
  let ?p2 = "pass ?e (fst ?r) ''random'' (snd ?r)"
  note inst = passes_are_verified[where e = ?e and s = ?s and f = ?F and fuel = "Suc 0"]
  have d: "\<forall>k. mwc32modn ?e k < N_PAGES" by (simp add: mwc32modn_ideal)
  have h: "places ?e ?F \<and> tags_intact ?s \<and> (\<forall>k. mwc32modn ?e k < N_PAGES)"
    using places_misplacing tags_intact_init d by (intro conjI)
  have ok: "\<forall>k i pgoff. fst (sys_remap_file_pages ?e k i pgoff) = 0" by simp
  have k0: "n_remap ?s = 0" "n_keep ?s = 0" by (simp_all add: init_loop_cursors fresh_def)
  have t0: "failures (trace ?s) = []" by (simp add: init_loop_fields fresh_def)
  have seven: "7 < N_PAGES" by (simp add: N_PAGES_def)
  note c5 = inst[THEN conjunct2, THEN conjunct2, THEN conjunct2, THEN conjunct2, THEN conjunct1,
      THEN mp, OF ok]
  note c6 = inst[THEN conjunct2, THEN conjunct2, THEN conjunct2, THEN conjunct2, THEN conjunct2,
      THEN conjunct1, THEN mp, OF h]
  note tags2 = c6[THEN conjunct1, unfolded Let_def, THEN conjunct2, THEN conjunct1, THEN spec,
      THEN mp, OF seven]
  have m1: "unat (tag_at (snd ?p2) 7) = (fst ?r ! 7 + 1) mod N_PAGES"
    using tags2 by (simp add: k0)
  have m2: "unat (tag_at (snd ?p2) 7) \<noteq> fst ?r ! 7"
    unfolding m1 by (rule misplacing_shifts)
  have f: "failures (trace (snd (iteration ?e ?s))) = [''remap random order pages failed'']"
    using c6[THEN conjunct2, THEN conjunct1] misplaced_misplacing[where order = "rev [0..<N_PAGES]"]
      misplaced_misplacing(2)[where order = "fst (random_order ?e (rev [0..<N_PAGES]) ?s)"]
      misplaced_misplacing[where order = "replicate N_PAGES 0"]
      misplaced_misplacing[where order = "[0..<N_PAGES]"]
    by (simp add: k0 t0)
  have ks: "keep_stressing ?e (n_keep ?s)" by (simp add: k0)
  have l: "stress_loop (Suc (Suc 0)) ?e ?s =
      stress_loop (Suc 0) ?e ((snd (iteration ?e ?s))\<lparr>n_keep := Suc (n_keep ?s)\<rparr>)"
    using c6[THEN conjunct2, THEN conjunct2, THEN conjunct2] ks by (simp only: if_True)
  from places_misplacing d m1 m2 f c5 ks l
  show "places ?e ?F \<and> (\<forall>k. mwc32modn ?e k < N_PAGES) \<and>
    (let e = ?e; s = ?s; o1 = ?o1; p1 = pass e o1 ''reverse'' s;
         r = random_order e o1 (snd p1);
         p2 = pass e (fst r) ''random'' (snd r)
     in unat (tag_at (snd p2) 7) = (fst r ! 7 + 1) mod N_PAGES \<and>
        unat (tag_at (snd p2) 7) \<noteq> fst r ! 7) \<and>
    failures (trace (snd (iteration ?e ?s))) = [''remap random order pages failed''] \<and>
    fst (iteration ?e ?s) = Continue \<and>
    keep_stressing ?e (n_keep ?s) \<and>
    stress_loop (Suc (Suc 0)) ?e ?s =
      stress_loop (Suc 0) ?e ((snd (iteration ?e ?s))\<lparr>n_keep := Suc (n_keep ?s)\<rparr>)"
    unfolding Let_def by - (intro conjI; assumption)
qed

section \<open>The accounts of a run\<close>























lemma random_order_tally [simp]:
  "count (snd (random_order e order s)) = count s"
  "duration (snd (random_order e order s)) = duration s"
  "n_time (snd (random_order e order s)) = n_time s"
  by (simp_all add: random_order_def)








end
